theory Spec2Isabelle
  imports Main "HOL-Library.AList" "HOL-Library.List_Lexorder" "HOL-Library.Product_Lexorder"
begin

section \<open>JavaScript strings, numbers and objects\<close>

text \<open>
  The SNMP engine of \<^verbatim>\<open>server.js\<close> works on the text that the external walk tool
  prints. A JavaScript string is modelled as a \<^typ>\<open>string\<close> whose characters are the
  code units \<open>0..255\<close> (ASCII and Latin-1), which covers everything the tool prints.
  The white space of \<^verbatim>\<open>\s\<close> and of \<^verbatim>\<open>trim\<close>, and the line terminators that
  \<^verbatim>\<open>.\<close> and a multi-line \<^verbatim>\<open>$\<close> look at, are the members of those
  classes below code unit 256.
\<close>

definition whitespace :: "char list" where
  "whitespace = [CHR 0x09, CHR 0x0A, CHR 0x0B, CHR 0x0C, CHR 0x0D, CHR 0x20, CHR 0xA0]"

definition lineTerminators :: "char list" where
  "lineTerminators = [CHR 0x0A, CHR 0x0D]"

definition digit :: "char list" where
  "digit = ''0123456789''"

definition js_trim :: "string \<Rightarrow> string" where
  "js_trim s = rev (dropWhile (\<lambda>c. c \<in> set whitespace) (rev (dropWhile (\<lambda>c. c \<in> set whitespace) s)))"

text \<open>\<^verbatim>\<open>s.split(sep)\<close> for a one-character separator: \<^verbatim>\<open>''.split('.')\<close> is \<^verbatim>\<open>['']\<close>.\<close>

fun js_split :: "char \<Rightarrow> string \<Rightarrow> string list" where
  "js_split sep [] = [[]]"
| "js_split sep (c # cs) =
     (if c = sep then [] # js_split sep cs
      else (case js_split sep cs of [] \<Rightarrow> [[c]] | p # ps \<Rightarrow> (c # p) # ps))"

fun js_join :: "string \<Rightarrow> string list \<Rightarrow> string" where
  "js_join sep [] = []"
| "js_join sep [p] = p"
| "js_join sep (p # q # ps) = p @ sep @ js_join sep (q # ps)"

definition padStart :: "nat \<Rightarrow> char \<Rightarrow> string \<Rightarrow> string" where
  "padStart n c s = replicate (n - length s) c @ s"

text \<open>
  \<^verbatim>\<open>toLowerCase\<close>: the capital letters below code unit 256 are \<^verbatim>\<open>A\<close> to \<^verbatim>\<open>Z\<close> and the
  Latin-1 capitals \<open>0xC0..0xDE\<close> without \<open>0xD7\<close>; each maps to the letter 32 places up.
\<close>

definition upperChars :: "char list" where
  "upperChars = ''ABCDEFGHIJKLMNOPQRSTUVWXYZ'' @
     [CHR 0xC0, CHR 0xC1, CHR 0xC2, CHR 0xC3, CHR 0xC4, CHR 0xC5, CHR 0xC6, CHR 0xC7,
      CHR 0xC8, CHR 0xC9, CHR 0xCA, CHR 0xCB, CHR 0xCC, CHR 0xCD, CHR 0xCE, CHR 0xCF,
      CHR 0xD0, CHR 0xD1, CHR 0xD2, CHR 0xD3, CHR 0xD4, CHR 0xD5, CHR 0xD6, CHR 0xD8,
      CHR 0xD9, CHR 0xDA, CHR 0xDB, CHR 0xDC, CHR 0xDD, CHR 0xDE]"

definition lowerChars :: "char list" where
  "lowerChars = ''abcdefghijklmnopqrstuvwxyz'' @
     [CHR 0xE0, CHR 0xE1, CHR 0xE2, CHR 0xE3, CHR 0xE4, CHR 0xE5, CHR 0xE6, CHR 0xE7,
      CHR 0xE8, CHR 0xE9, CHR 0xEA, CHR 0xEB, CHR 0xEC, CHR 0xED, CHR 0xEE, CHR 0xEF,
      CHR 0xF0, CHR 0xF1, CHR 0xF2, CHR 0xF3, CHR 0xF4, CHR 0xF5, CHR 0xF6, CHR 0xF8,
      CHR 0xF9, CHR 0xFA, CHR 0xFB, CHR 0xFC, CHR 0xFD, CHR 0xFE]"

definition lowerChar :: "char \<Rightarrow> char" where
  "lowerChar c = (case map_of (zip upperChars lowerChars) c of None \<Rightarrow> c | Some l \<Rightarrow> l)"

definition toLowerCase :: "string \<Rightarrow> string" where
  "toLowerCase s = map lowerChar s"

text \<open>
  A JavaScript number is modelled as \<open>NaN\<close> or an integer. The program builds numbers
  with \<^verbatim>\<open>parseInt\<close> only, so no fraction arises; the model is exact up to \<open>2^53\<close>.
  Beyond that it keeps the integer where JavaScript rounds to the nearest double, and it
  prints every digit where JavaScript prints the shortest digits of the double, in
  exponent form from \<open>10^21\<close> on. Port numbers, interface indexes, channels and the
  octets of a MAC lie far below.
\<close>

datatype number = NaN | Num int

definition digitValue :: "char \<Rightarrow> nat option" where
  "digitValue c =
     (let n = (of_char c :: nat) in
      if 48 \<le> n \<and> n \<le> 57 then Some (n - 48)
      else if 97 \<le> n \<and> n \<le> 122 then Some (n - 87)
      else if 65 \<le> n \<and> n \<le> 90 then Some (n - 55)
      else None)"

fun digitsPrefix :: "nat \<Rightarrow> string \<Rightarrow> nat list" where
  "digitsPrefix R [] = []"
| "digitsPrefix R (c # cs) =
     (case digitValue c of
        None \<Rightarrow> []
      | Some d \<Rightarrow> if d < R then d # digitsPrefix R cs else [])"

definition fromDigits :: "nat \<Rightarrow> nat list \<Rightarrow> nat" where
  "fromDigits R ds = foldl (\<lambda>a d. a * R + d) 0 ds"

text \<open>
  \<^verbatim>\<open>parseInt(str, radix)\<close> as ECMAScript defines it; radix \<open>0\<close> stands for a call
  without radix. Leading white space is skipped, a sign is read, a \<^verbatim>\<open>0x\<close> prefix
  selects radix 16 when the radix is absent or 16, and the longest prefix of digits is
  converted; no digit gives \<open>NaN\<close>.
\<close>

definition parseInt :: "string \<Rightarrow> nat \<Rightarrow> number" where
  "parseInt str radix =
     (let s0 = dropWhile (\<lambda>c. c \<in> set whitespace) str;
          negative = (take 1 s0 = ''-'');
          s1 = (if take 1 s0 = ''+'' \<or> take 1 s0 = ''-'' then drop 1 s0 else s0);
          hex = ((radix = 0 \<or> radix = 16) \<and> (take 2 s1 = ''0x'' \<or> take 2 s1 = ''0X''));
          R = (if hex then 16 else if radix = 0 then 10 else radix);
          s2 = (if hex then drop 2 s1 else s1);
          Z = digitsPrefix R s2
      in if radix \<noteq> 0 \<and> (radix < 2 \<or> 36 < radix) then NaN
         else if Z = [] then NaN
         else if negative then Num (- int (fromDigits R Z))
         else Num (int (fromDigits R Z)))"

definition digitChar :: "nat \<Rightarrow> char" where
  "digitChar d = ''0123456789abcdefghijklmnopqrstuvwxyz'' ! (d mod 36)"

function toDigits :: "nat \<Rightarrow> nat \<Rightarrow> nat list" where
  "toDigits R n = (if R < 2 \<or> n < R then [n] else toDigits R (n div R) @ [n mod R])"
  by pat_completeness auto
termination
  by (relation "measure snd") auto

text \<open>\<^verbatim>\<open>x.toString(radix)\<close>; \<^verbatim>\<open>String(x)\<close> and \<^verbatim>\<open>`${x}`\<close> are radix 10.\<close>

definition numToString :: "number \<Rightarrow> nat \<Rightarrow> string" where
  "numToString x radix =
     (case x of
        NaN \<Rightarrow> ''NaN''
      | Num i \<Rightarrow> (if i < 0 then ''-'' else []) @ map digitChar (toDigits radix (nat \<bar>i\<bar>)))"

text \<open>Truthiness, as \<^verbatim>\<open>if (x)\<close>, \<^verbatim>\<open>!x\<close> and \<^verbatim>\<open>x || y\<close> test it.\<close>

definition truthyNum :: "number \<Rightarrow> bool" where
  "truthyNum x = (case x of NaN \<Rightarrow> False | Num i \<Rightarrow> i \<noteq> 0)"

definition truthyStr :: "string \<Rightarrow> bool" where
  "truthyStr s = (s \<noteq> [])"

section \<open>Regular expressions\<close>

text \<open>
  The patterns of the program use literals, character classes, greedy and lazy
  repetition, optional parts, capture groups and \<^verbatim>\<open>$\<close>. The matcher is the
  backtracking one of ECMAScript: \<open>rx r st\<close> lists, in the order the backtracking
  tries them, the states in which a match of \<open>r\<close> starting in \<open>st\<close> can end. A state
  is the rest of the input with the captures made so far. An iteration of a repetition
  that consumes nothing is dropped, as RepeatMatcher does. No pattern of the program has
  a capture group inside a repetition, so captures need not be reset between iterations.
\<close>

datatype regex =
    Lit string
  | Cls "char list"
  | NCls "char list"
  | Seq regex regex
  | Opt regex
  | Star regex
  | StarLazy regex
  | Grp nat regex
  | EndInput
  | EndLine

type_synonym captures = "(nat \<times> string) list"

type_synonym mstate = "string \<times> captures"

fun rx :: "regex \<Rightarrow> mstate \<Rightarrow> mstate list" where
  "rx (Lit l) st =
     (if take (length l) (fst st) = l then [(drop (length l) (fst st), snd st)] else [])"
| "rx (Cls cs) st =
     (case fst st of [] \<Rightarrow> [] | x # xs \<Rightarrow> if x \<in> set cs then [(xs, snd st)] else [])"
| "rx (NCls cs) st =
     (case fst st of [] \<Rightarrow> [] | x # xs \<Rightarrow> if x \<notin> set cs then [(xs, snd st)] else [])"
| "rx (Seq a b) st = concat (map (rx b) (rx a st))"
| "rx (Opt a) st = filter (\<lambda>st'. length (fst st') < length (fst st)) (rx a st) @ [st]"
| "rx (Star a) st =
     concat (map (\<lambda>st'. if length (fst st') < length (fst st) then rx (Star a) st' else [])
                 (rx a st)) @ [st]"
| "rx (StarLazy a) st =
     st # concat (map (\<lambda>st'. if length (fst st') < length (fst st) then rx (StarLazy a) st' else [])
                      (rx a st))"
| "rx (Grp n a) st =
     map (\<lambda>st'. (fst st',
                  AList.update n (take (length (fst st) - length (fst st')) (fst st)) (snd st')))
         (rx a st)"
| "rx EndInput st = (if fst st = [] then [st] else [])"
| "rx EndLine st =
     (case fst st of [] \<Rightarrow> [st] | x # xs \<Rightarrow> if x \<in> set lineTerminators then [st] else [])"

text \<open>\<^verbatim>\<open>a+\<close> is \<^verbatim>\<open>aa*\<close> and \<^verbatim>\<open>a+?\<close> is \<^verbatim>\<open>aa*?\<close>; \<^verbatim>\<open>.\<close> is any character but a line terminator.\<close>

definition Plus :: "regex \<Rightarrow> regex" where
  "Plus a = Seq a (Star a)"

definition PlusLazy :: "regex \<Rightarrow> regex" where
  "PlusLazy a = Seq a (StarLazy a)"

definition Dot :: regex where
  "Dot = NCls lineTerminators"

fun seqs :: "regex list \<Rightarrow> regex" where
  "seqs [] = Lit []"
| "seqs [r] = r"
| "seqs (r # rs) = Seq r (seqs rs)"

text \<open>
  \<^verbatim>\<open>str.match(re)\<close> for a pattern without the \<^verbatim>\<open>g\<close> flag: the first match from the
  leftmost start position that has one; the result gives the whole match as group 0
  and the capture groups by number. \<open>None\<close> is \<^verbatim>\<open>null\<close>.
\<close>

fun js_match :: "regex \<Rightarrow> string \<Rightarrow> captures option" where
  "js_match r [] = (case rx (Grp 0 r) ([], []) of [] \<Rightarrow> None | st # _ \<Rightarrow> Some (snd st))"
| "js_match r (x # xs) =
     (case rx (Grp 0 r) (x # xs, []) of [] \<Rightarrow> js_match r xs | st # _ \<Rightarrow> Some (snd st))"

text \<open>
  \<open>grp m i\<close> is \<^verbatim>\<open>m[i]\<close>. Every capture group of the program's patterns lies outside
  the optional parts and the repetitions, so a match defines each of them (lemmas
  \<open>js_match_defines\<close> and \<open>must_patterns\<close>).
\<close>

definition grp :: "captures \<Rightarrow> nat \<Rightarrow> string" where
  "grp m i = (case map_of m i of None \<Rightarrow> [] | Some s \<Rightarrow> s)"

text \<open>
  What it means for a pattern to match, without the order of the backtracking:
  \<open>rmatch r st st'\<close> holds when \<open>r\<close> can consume a prefix of the input of \<open>st\<close> and
  leave \<open>st'\<close>. The matcher finds exactly these matches (lemmas \<open>rx_sound\<close> and
  \<open>rx_complete\<close>).
\<close>

inductive rmatch :: "regex \<Rightarrow> mstate \<Rightarrow> mstate \<Rightarrow> bool" where
  Lit: "rmatch (Lit l) (l @ s, c) (s, c)"
| Cls: "x \<in> set cs \<Longrightarrow> rmatch (Cls cs) (x # s, c) (s, c)"
| NCls: "x \<notin> set cs \<Longrightarrow> rmatch (NCls cs) (x # s, c) (s, c)"
| Seq: "rmatch a st st1 \<Longrightarrow> rmatch b st1 st2 \<Longrightarrow> rmatch (Seq a b) st st2"
| OptNone: "rmatch (Opt a) st st"
| OptSome: "rmatch a st st1 \<Longrightarrow> rmatch (Opt a) st st1"
| StarNil: "rmatch (Star a) st st"
| StarStep: "rmatch a st st1 \<Longrightarrow> rmatch (Star a) st1 st2 \<Longrightarrow> rmatch (Star a) st st2"
| LazyNil: "rmatch (StarLazy a) st st"
| LazyStep: "rmatch a st st1 \<Longrightarrow> rmatch (StarLazy a) st1 st2 \<Longrightarrow> rmatch (StarLazy a) st st2"
| Grp: "rmatch a (s, c) (s1, c1) \<Longrightarrow>
        rmatch (Grp n a) (s, c) (s1, AList.update n (take (length s - length s1) s) c1)"
| EndInput: "rmatch EndInput ([], c) ([], c)"
| EndLine: "s = [] \<or> hd s \<in> set lineTerminators \<Longrightarrow> rmatch EndLine (s, c) (s, c)"

text \<open>The capture groups that every match of a pattern defines.\<close>

fun must :: "regex \<Rightarrow> nat set" where
  "must (Grp n a) = insert n (must a)"
| "must (Seq a b) = must a \<union> must b"
| "must r = {}"

section \<open>OID and value parsers\<close>

text \<open>\<^verbatim>\<open>macFromDecOid\<close>, lines 53 to 57; \<open>None\<close> is \<^verbatim>\<open>null\<close>.\<close>

definition macFromDecOid :: "string \<Rightarrow> string option" where
  "macFromDecOid suffix =
     (let parts = js_split CHR ''.'' suffix in
      if length parts \<noteq> 6 then None
      else Some (js_join '':'' (map (\<lambda>n. padStart 2 CHR ''0'' (numToString (parseInt n 10) 16)) parts)))"

text \<open>
  \<^verbatim>\<open>macFromHexStr\<close>, lines 59 to 63. The global replace deletes every colon and white
  space character. The stripped text then holds no line terminator (each is white
  space), so \<^verbatim>\<open>.{2}\<close> matches any two characters and the global match cuts the text
  into its consecutive pairs.
\<close>

fun pairs :: "string \<Rightarrow> string list" where
  "pairs (a # b # cs) = [a, b] # pairs cs"
| "pairs cs = []"

definition macFromHexStr :: "string \<Rightarrow> string option" where
  "macFromHexStr str =
     (let hex = toLowerCase (filter (\<lambda>c. c \<notin> set ('':'' @ whitespace)) str) in
      if length hex \<noteq> 12 then None
      else Some (js_join '':'' (pairs hex)))"

section \<open>The data model\<close>

record has_mac =
  mac :: string

record wlan_client = has_mac +
  channel :: "number option"
  band :: "number option"

record client_entry = has_mac +
  bridgePort :: number
  portName :: string
  ip :: "string option"

record client_table_result =
  entries :: "client_entry list"
  count :: nat
  countWithIp :: nat
  hasMacTable :: bool
  source :: string

record test_result =
  ok :: bool
  sysDescr :: string

text \<open>
  An object literal used as a dictionary is an association list in insertion order:
  \<^verbatim>\<open>obj[k] = v\<close> is \<^const>\<open>AList.update\<close> (an existing key keeps its place, a new one
  goes to the end) and \<^verbatim>\<open>obj[k]\<close> is \<^const>\<open>map_of\<close>, \<open>None\<close> for \<^verbatim>\<open>undefined\<close>.
  The keys that are enumerated are MAC strings, which hold a colon, so none is an
  integer index (those would come first) and none names an inherited property.
\<close>

type_synonym 'v obj = "(string \<times> 'v) list"

text \<open>
  \<^verbatim>\<open>a.localeCompare(b, undefined, {numeric: true})\<close> belongs to the platform; the
  collator is a parameter of the model.
\<close>

type_synonym collator = "string \<Rightarrow> string \<Rightarrow> int"

text \<open>
  \<^verbatim>\<open>Array.prototype.sort\<close> is stable. With a consistent comparator the result is the
  one stable sorted arrangement, which insertion from the right computes.
\<close>

fun insertBy :: "('a \<Rightarrow> 'a \<Rightarrow> int) \<Rightarrow> 'a \<Rightarrow> 'a list \<Rightarrow> 'a list" where
  "insertBy cmp x [] = [x]"
| "insertBy cmp x (y # ys) = (if cmp x y \<le> 0 then x # y # ys else y # insertBy cmp x ys)"

definition js_sort :: "('a \<Rightarrow> 'a \<Rightarrow> int) \<Rightarrow> 'a list \<Rightarrow> 'a list" where
  "js_sort cmp xs = foldr (insertBy cmp) xs []"

definition sortByPortName :: "collator \<Rightarrow> client_entry list \<Rightarrow> client_entry list" where
  "sortByPortName cmp es = js_sort (\<lambda>a b. cmp (portName a) (portName b)) es"

text \<open>The object both resolvers return, lines 120 to 126 and 197 to 203.\<close>

definition tableResult :: "string \<Rightarrow> client_entry list \<Rightarrow> client_table_result" where
  "tableResult src es =
     \<lparr>entries = es,
      count = length es,
      countWithIp = length (filter (\<lambda>e. case ip e of None \<Rightarrow> False | Some a \<Rightarrow> truthyStr a) es),
      hasMacTable = (0 < length es),
      source = src\<rparr>"

section \<open>The patterns of the table builders\<close>

text \<open>\<^verbatim>\<open>/4\.22\.1\.2\.\d+\.([\d.]+)\s*=\s*(?:Hex-STRING:\s*)?([\dA-Fa-f ]+)\s*$/\<close>\<close>

definition arpRe :: regex where
  "arpRe = seqs
     [Lit ''4.22.1.2.'', Plus (Cls digit), Lit ''.'', Grp 1 (Plus (Cls (digit @ ''.''))),
      Star (Cls whitespace), Lit ''='', Star (Cls whitespace),
      Opt (Seq (Lit ''Hex-STRING:'') (Star (Cls whitespace))),
      Grp 2 (Plus (Cls (digit @ ''ABCDEFabcdef ''))), Star (Cls whitespace), EndInput]"

text \<open>\<^verbatim>\<open>/2356\.13\.1\.3\.32\.1\.3\.([\d.]+)\s*=\s*(?:STRING:\s*)?\"?([^"\n]+?)\"?\s*$/\<close>\<close>

definition ssidRe :: regex where
  "ssidRe = seqs
     [Lit ''2356.13.1.3.32.1.3.'', Grp 1 (Plus (Cls (digit @ ''.''))),
      Star (Cls whitespace), Lit ''='', Star (Cls whitespace),
      Opt (Seq (Lit ''STRING:'') (Star (Cls whitespace))),
      Opt (Lit [CHR 0x22]), Grp 2 (PlusLazy (NCls [CHR 0x22, CHR 0x0A])), Opt (Lit [CHR 0x22]),
      Star (Cls whitespace), EndInput]"

text \<open>\<^verbatim>\<open>/2356\.13\.1\.3\.4\.1\.1\.(\d+)\.([\d.]+)\s*=\s*(.*)/\<close>\<close>

definition clientRe :: regex where
  "clientRe = seqs
     [Lit ''2356.13.1.3.4.1.1.'', Grp 1 (Plus (Cls digit)), Lit ''.'',
      Grp 2 (Plus (Cls (digit @ ''.''))),
      Star (Cls whitespace), Lit ''='', Star (Cls whitespace), Grp 3 (Star Dot)]"

text \<open>\<^verbatim>\<open>/(\d+)/\<close>\<close>

definition numRe :: regex where
  "numRe = Grp 1 (Plus (Cls digit))"

text \<open>\<^verbatim>\<open>/17\.4\.3\.1\.2\.([\d.]+)\s*=\s*INTEGER:\s*(\d+)/\<close>\<close>

definition fdbRe :: regex where
  "fdbRe = seqs
     [Lit ''17.4.3.1.2.'', Grp 1 (Plus (Cls (digit @ ''.''))),
      Star (Cls whitespace), Lit ''='', Star (Cls whitespace),
      Lit ''INTEGER:'', Star (Cls whitespace), Grp 2 (Plus (Cls digit))]"

text \<open>\<^verbatim>\<open>/17\.7\.1\.2\.2\.1\.2\.\d+\.([\d.]+)\s*=\s*INTEGER:\s*(\d+)/\<close>\<close>

definition qfdbRe :: regex where
  "qfdbRe = seqs
     [Lit ''17.7.1.2.2.1.2.'', Plus (Cls digit), Lit ''.'', Grp 1 (Plus (Cls (digit @ ''.''))),
      Star (Cls whitespace), Lit ''='', Star (Cls whitespace),
      Lit ''INTEGER:'', Star (Cls whitespace), Grp 2 (Plus (Cls digit))]"

text \<open>\<^verbatim>\<open>/17\.1\.4\.1\.2\.(\d+)\s*=\s*INTEGER:\s*(\d+)/\<close>\<close>

definition bpRe :: regex where
  "bpRe = seqs
     [Lit ''17.1.4.1.2.'', Grp 1 (Plus (Cls digit)),
      Star (Cls whitespace), Lit ''='', Star (Cls whitespace),
      Lit ''INTEGER:'', Star (Cls whitespace), Grp 2 (Plus (Cls digit))]"

text \<open>\<^verbatim>\<open>/31\.1\.1\.1\.1\.(\d+)\s*=\s*(?:STRING:\s*)?"?([^"\n]+?)"?\s*$/\<close>\<close>

definition ifNameRe :: regex where
  "ifNameRe = seqs
     [Lit ''31.1.1.1.1.'', Grp 1 (Plus (Cls digit)),
      Star (Cls whitespace), Lit ''='', Star (Cls whitespace),
      Opt (Seq (Lit ''STRING:'') (Star (Cls whitespace))),
      Opt (Lit [CHR 0x22]), Grp 2 (PlusLazy (NCls [CHR 0x22, CHR 0x0A])), Opt (Lit [CHR 0x22]),
      Star (Cls whitespace), EndInput]"

text \<open>\<^verbatim>\<open>/STRING:\s*"?([^\n"]+)"?\s*$/m\<close>\<close>

definition sysDescrRe :: regex where
  "sysDescrRe = seqs
     [Lit ''STRING:'', Star (Cls whitespace), Opt (Lit [CHR 0x22]),
      Grp 1 (Plus (NCls [CHR 0x0A, CHR 0x22])), Opt (Lit [CHR 0x22]),
      Star (Cls whitespace), EndLine]"

definition js_lines :: "string \<Rightarrow> string list" where
  "js_lines text = js_split CHR 0x0A text"

section \<open>Table builders\<close>

text \<open>The ARP table, MAC to IP: lines 76 to 83, and again lines 175 to 182.\<close>

definition arpLine :: "string obj \<Rightarrow> string \<Rightarrow> string obj" where
  "arpLine macToIp line =
     (case js_match arpRe line of
        None \<Rightarrow> macToIp
      | Some m \<Rightarrow>
          if length (js_split CHR ''.'' (grp m 1)) = 4 then
            (case macFromHexStr (js_trim (grp m 2)) of
               None \<Rightarrow> macToIp
             | Some addr \<Rightarrow> if truthyStr addr then AList.update addr (grp m 1) macToIp else macToIp)
          else macToIp)"

definition parseArp :: "string \<Rightarrow> string obj" where
  "parseArp arpOut = foldl arpLine [] (js_lines arpOut)"

text \<open>The SSID of each client, lines 86 to 93.\<close>

definition ssidLine :: "string obj \<Rightarrow> string \<Rightarrow> string obj" where
  "ssidLine macToSsid line =
     (case js_match ssidRe line of
        None \<Rightarrow> macToSsid
      | Some m \<Rightarrow>
          (case macFromDecOid (grp m 1) of
             None \<Rightarrow> macToSsid
           | Some addr \<Rightarrow>
               if truthyStr addr then AList.update addr (js_trim (grp m 2)) macToSsid
               else macToSsid))"

definition parseSsid :: "string \<Rightarrow> string obj" where
  "parseSsid ssidOut = foldl ssidLine [] (js_lines ssidOut)"

text \<open>The client table with channel and band, lines 96 to 109.\<close>

definition clientLine :: "wlan_client obj \<Rightarrow> string \<Rightarrow> wlan_client obj" where
  "clientLine clients line =
     (case js_match clientRe line of
        None \<Rightarrow> clients
      | Some m \<Rightarrow>
          (let col = parseInt (grp m 1) 0 in
           case macFromDecOid (grp m 2) of
             None \<Rightarrow> clients
           | Some addr \<Rightarrow>
               if \<not> truthyStr addr then clients
               else
                 (let clients1 =
                        (case map_of clients addr of
                           None \<Rightarrow> AList.update addr \<lparr>mac = addr, channel = None, band = None\<rparr> clients
                         | Some c \<Rightarrow> clients);
                      val = js_trim (grp m 3);
                      n = js_match numRe val;
                      clients2 =
                        (case n of
                           None \<Rightarrow> clients1
                         | Some k \<Rightarrow>
                             if col = Num 2
                             then AList.map_entry addr (\<lambda>c. c\<lparr>channel := Some (parseInt (grp k 1) 0)\<rparr>) clients1
                             else clients1)
                  in case n of
                       None \<Rightarrow> clients2
                     | Some k \<Rightarrow>
                         if col = Num 3
                         then AList.map_entry addr (\<lambda>c. c\<lparr>band := Some (parseInt (grp k 1) 0)\<rparr>) clients2
                         else clients2)))"

definition parseClients :: "string \<Rightarrow> wlan_client obj" where
  "parseClients clientOut = foldl clientLine [] (js_lines clientOut)"

text \<open>One entry for each client, lines 111 to 117.\<close>

definition wlanEntry :: "string obj \<Rightarrow> string obj \<Rightarrow> wlan_client \<Rightarrow> client_entry" where
  "wlanEntry macToSsid macToIp c =
     (let ssid = (case map_of macToSsid (mac c) of
                    None \<Rightarrow> []
                  | Some s \<Rightarrow> if truthyStr s then s else []);
          name0 = (if truthyStr ssid then ''WLAN: '' @ ssid else ''WLAN'');
          name1 = (case band c of
                     None \<Rightarrow> name0
                   | Some b \<Rightarrow>
                       if truthyNum b
                       then name0 @ (if b = Num 1 then '' (2.4G)'' else if b = Num 2 then '' (5G)'' else [])
                       else name0);
          name2 = (case channel c of
                     None \<Rightarrow> name1
                   | Some ch \<Rightarrow> if truthyNum ch then name1 @ '' CH'' @ numToString ch 10 else name1)
      in \<lparr>mac = mac c, bridgePort = Num 0, portName = name2,
          ip = (case map_of macToIp (mac c) of
                  None \<Rightarrow> None
                | Some a \<Rightarrow> if truthyStr a then Some a else None)\<rparr>)"

text \<open>\<^verbatim>\<open>snmpLancomWlanClients\<close> from the three walk texts on, lines 75 to 126.\<close>

definition wlanClientTable :: "collator \<Rightarrow> string \<Rightarrow> string \<Rightarrow> string \<Rightarrow> client_table_result" where
  "wlanClientTable cmp clientOut ssidOut arpOut =
     (let macToIp = parseArp arpOut;
          macToSsid = parseSsid ssidOut;
          clients = parseClients clientOut;
          es = map (wlanEntry macToSsid macToIp) (map snd clients)
      in tableResult ''wlan-clients'' (sortByPortName cmp es))"

text \<open>MAC to bridge port: the classic Bridge MIB first, then the Q-Bridge MIB, lines 139 to 158.\<close>

definition fdbLine :: "number obj \<Rightarrow> string \<Rightarrow> number obj" where
  "fdbLine macToBp line =
     (case js_match fdbRe line of
        None \<Rightarrow> macToBp
      | Some m \<Rightarrow>
          (case macFromDecOid (grp m 1) of
             None \<Rightarrow> macToBp
           | Some addr \<Rightarrow>
               if truthyStr addr then AList.update addr (parseInt (grp m 2) 0) macToBp
               else macToBp))"

definition qfdbLine :: "number obj \<Rightarrow> string \<Rightarrow> number obj" where
  "qfdbLine macToBp line =
     (case js_match qfdbRe line of
        None \<Rightarrow> macToBp
      | Some m \<Rightarrow>
          (case macFromDecOid (grp m 1) of
             None \<Rightarrow> macToBp
           | Some addr \<Rightarrow>
               if truthyStr addr \<and> \<not> (case map_of macToBp addr of None \<Rightarrow> False | Some p \<Rightarrow> truthyNum p)
               then AList.update addr (parseInt (grp m 2) 0) macToBp
               else macToBp))"

definition parseMacToBp :: "string \<Rightarrow> string \<Rightarrow> number obj" where
  "parseMacToBp fdbOut qfdbOut =
     (let macToBp = foldl fdbLine [] (js_lines fdbOut) in
      if length macToBp = 0 then foldl qfdbLine macToBp (js_lines qfdbOut) else macToBp)"

text \<open>Bridge port to ifIndex, lines 161 to 165, and ifIndex to interface name, lines 168 to 172.\<close>

definition bpLine :: "number obj \<Rightarrow> string \<Rightarrow> number obj" where
  "bpLine bpToIf line =
     (case js_match bpRe line of
        None \<Rightarrow> bpToIf
      | Some m \<Rightarrow> AList.update (grp m 1) (parseInt (grp m 2) 0) bpToIf)"

definition parseBpToIf :: "string \<Rightarrow> number obj" where
  "parseBpToIf bpOut = foldl bpLine [] (js_lines bpOut)"

definition ifNameLine :: "string obj \<Rightarrow> string \<Rightarrow> string obj" where
  "ifNameLine ifNames line =
     (case js_match ifNameRe line of
        None \<Rightarrow> ifNames
      | Some m \<Rightarrow> AList.update (grp m 1) (js_trim (grp m 2)) ifNames)"

definition parseIfNames :: "string \<Rightarrow> string obj" where
  "parseIfNames ifNameOut = foldl ifNameLine [] (js_lines ifNameOut)"

text \<open>The join, lines 184 to 188.\<close>

definition bridgeEntry :: "number obj \<Rightarrow> string obj \<Rightarrow> string obj \<Rightarrow> string \<times> number \<Rightarrow> client_entry" where
  "bridgeEntry bpToIf ifNames macToIp e =
     (let m = fst e;
          bp = snd e;
          ifIdx = map_of bpToIf (numToString bp 10);
          port = ''Port '' @ numToString bp 10;
          name = (case ifIdx of
                    None \<Rightarrow> port
                  | Some i \<Rightarrow>
                      if truthyNum i
                      then (case map_of ifNames (numToString i 10) of
                              None \<Rightarrow> port
                            | Some nm \<Rightarrow> if truthyStr nm then nm else port)
                      else port)
      in \<lparr>mac = m, bridgePort = bp, portName = name,
          ip = (case map_of macToIp m of
                  None \<Rightarrow> None
                | Some a \<Rightarrow> if truthyStr a then Some a else None)\<rparr>)"

text \<open>\<^verbatim>\<open>snmpMacTable\<close> from the five walk texts to the sorted entries, lines 139 to 190.\<close>

definition bridgeEntries ::
  "collator \<Rightarrow> string \<Rightarrow> string \<Rightarrow> string \<Rightarrow> string \<Rightarrow> string \<Rightarrow> client_entry list" where
  "bridgeEntries cmp fdbOut qfdbOut bpOut ifNameOut arpOut =
     (let macToBp = parseMacToBp fdbOut qfdbOut;
          bpToIf = parseBpToIf bpOut;
          ifNames = parseIfNames ifNameOut;
          macToIp = parseArp arpOut
      in sortByPortName cmp (map (bridgeEntry bpToIf ifNames macToIp) macToBp))"

text \<open>The connectivity test from the walk text on, lines 324 and 325.\<close>

definition testResult :: "string \<Rightarrow> test_result" where
  "testResult out =
     (case js_match sysDescrRe out of
        Some m \<Rightarrow> \<lparr>ok = True, sysDescr = js_trim (grp m 1)\<rparr>
      | None \<Rightarrow>
          \<lparr>ok = False,
           sysDescr = (if truthyStr (take 200 (js_trim out)) then take 200 (js_trim out)
                       else ''Keine Antwort'')\<rparr>)"

section \<open>The walk executor and the resolver\<close>

text \<open>
  A promise is pending, resolved with a value, or rejected with an error. The child
  process that \<^verbatim>\<open>spawn\<close> returns is seen through the events it raises, in their
  order: a chunk on standard output, \<^verbatim>\<open>close\<close> with the exit code (none after a
  signal), \<^verbatim>\<open>error\<close> (the process could not be started or killed), and the expiry
  of the timer of 12000 ms.
\<close>

datatype 'a promise = Pending | Resolved 'a | Rejected string

datatype proc_event = Data string | Close "int option" | Error | Timeout

record walk_state =
  out :: string
  timer :: bool
  killed :: bool
  settled :: "string promise"

text \<open>Only the first \<^verbatim>\<open>resolve\<close> settles a promise.\<close>

definition resolve :: "'a \<Rightarrow> 'a promise \<Rightarrow> 'a promise" where
  "resolve v p = (case p of Pending \<Rightarrow> Resolved v | Resolved w \<Rightarrow> Resolved w | Rejected e \<Rightarrow> Rejected e)"

text \<open>
  The handlers of lines 46 to 49. The timer is armed until it expires or is cleared;
  when it expires armed, \<^verbatim>\<open>proc.kill()\<close> is called, and \<open>killed\<close> records that call.
\<close>

fun onEvent :: "walk_state \<Rightarrow> proc_event \<Rightarrow> walk_state" where
  "onEvent w (Data d) = w\<lparr>out := out w @ d\<rparr>"
| "onEvent w Timeout = (if timer w then w\<lparr>timer := False, killed := True\<rparr> else w)"
| "onEvent w (Close code) = w\<lparr>timer := False, settled := resolve (out w) (settled w)\<rparr>"
| "onEvent w Error = w\<lparr>timer := False, settled := resolve [] (settled w)\<rparr>"

text \<open>The state after line 49: no output yet, the timer armed, the handlers attached.\<close>

definition walkStart :: walk_state where
  "walkStart = \<lparr>out = [], timer = True, killed = False, settled = Pending\<rparr>"

text \<open>
  A call of \<^verbatim>\<open>spawn\<close> throws or returns a child process. A child is given by whether
  it has a standard output stream and by its events: \<^verbatim>\<open>spawn\<close> returns a child
  without streams when the system has no file descriptor left for the pipes.

  The executor of the promise, lines 42 to 49, has no \<^verbatim>\<open>try\<close> around lines 42 to
  46, so what is thrown there rejects the promise: the error of \<^verbatim>\<open>spawn\<close> at line
  44, and at line 46 the TypeError of \<^verbatim>\<open>proc.stdout.on\<close> for a child without standard
  output. In both cases the executor ends before the timer is set and before a handler
  is attached, so no event of the child reaches the promise. Otherwise the handlers
  see the events of the child in turn.
\<close>

datatype child = Child bool "proc_event list"

datatype spawn_result = Throws string | Returns child

definition executor :: "spawn_result \<Rightarrow> walk_state" where
  "executor r =
     (case r of
        Throws e \<Rightarrow> \<lparr>out = [], timer = False, killed = False, settled = Rejected e\<rparr>
      | Returns (Child hasStdout evs) \<Rightarrow>
          if hasStdout then foldl onEvent walkStart evs
          else \<lparr>out = [], timer = False, killed = False, settled = Rejected ''TypeError''\<rparr>)"

definition settle :: "spawn_result \<Rightarrow> string promise" where
  "settle r = settled (executor r)"

text \<open>
  The operating system decides what a call of \<^verbatim>\<open>spawn\<close> does, given the commands
  spawned before it. \<^verbatim>\<open>runSnmpWalk\<close>, lines 40 to 51, calls \<^verbatim>\<open>spawn\<close> once and
  returns the promise; the list of the commands that \<^verbatim>\<open>spawn\<close> was called with is
  threaded through.
\<close>

type_synonym command = "string \<times> string list"

type_synonym os = "command list \<Rightarrow> command \<Rightarrow> spawn_result"

definition walkCommand :: "string \<Rightarrow> string \<Rightarrow> string \<Rightarrow> string \<Rightarrow> command" where
  "walkCommand host community version oid =
     (if version = ''1'' then ''snmpwalk'' else ''snmpbulkwalk'',
      [''-v'', version, ''-c'', community, ''-On'', ''-t'', ''5'', ''-r'', ''1'', host, oid])"

definition runSnmpWalk ::
  "os \<Rightarrow> string \<Rightarrow> string \<Rightarrow> string \<Rightarrow> string \<Rightarrow> command list \<Rightarrow> string promise \<times> command list" where
  "runSnmpWalk sys host community version oid spawned =
     (let cmd = walkCommand host community version oid
      in (settle (sys spawned cmd), spawned @ [cmd]))"

text \<open>
  \<^verbatim>\<open>Promise.all\<close> of two promises; longer lists nest it. A promise of
  \<^verbatim>\<open>runSnmpWalk\<close> that is rejected is so from its creation on, so of several the first
  in the list rejects the whole.
\<close>

definition both :: "'a promise \<Rightarrow> 'b promise \<Rightarrow> ('a \<times> 'b) promise" where
  "both p q =
     (case p of
        Rejected e \<Rightarrow> Rejected e
      | Pending \<Rightarrow> (case q of Rejected e \<Rightarrow> Rejected e | Pending \<Rightarrow> Pending | Resolved b \<Rightarrow> Pending)
      | Resolved a \<Rightarrow> (case q of Rejected e \<Rightarrow> Rejected e | Pending \<Rightarrow> Pending | Resolved b \<Rightarrow> Resolved (a, b)))"

text \<open>\<^verbatim>\<open>snmpLancomWlanClients\<close>, lines 68 to 127.\<close>

definition snmpLancomWlanClients ::
  "os \<Rightarrow> collator \<Rightarrow> string \<Rightarrow> string \<Rightarrow> string \<Rightarrow> command list \<Rightarrow>
     client_table_result promise \<times> command list" where
  "snmpLancomWlanClients sys cmp host community version spawned =
     (let (clientP, s1) = runSnmpWalk sys host community version ''1.3.6.1.4.1.2356.13.1.3.4.1.1'' spawned;
          (ssidP, s2) = runSnmpWalk sys host community version ''1.3.6.1.4.1.2356.13.1.3.32.1.3'' s1;
          (arpP, s3) = runSnmpWalk sys host community version ''1.3.6.1.2.1.4.22.1.2'' s2
      in (case both clientP (both ssidP arpP) of
            Pending \<Rightarrow> Pending
          | Rejected e \<Rightarrow> Rejected e
          | Resolved (clientOut, ssidOut, arpOut) \<Rightarrow>
              Resolved (wlanClientTable cmp clientOut ssidOut arpOut),
          s3))"

text \<open>\<^verbatim>\<open>snmpMacTable\<close>, lines 129 to 204.\<close>

definition snmpMacTable ::
  "os \<Rightarrow> collator \<Rightarrow> string \<Rightarrow> string \<Rightarrow> string \<Rightarrow> command list \<Rightarrow>
     client_table_result promise \<times> command list" where
  "snmpMacTable sys cmp host community version spawned =
     (let (fdbP, s1) = runSnmpWalk sys host community version ''1.3.6.1.2.1.17.4.3.1.2'' spawned;
          (qfdbP, s2) = runSnmpWalk sys host community version ''1.3.6.1.2.1.17.7.1.2.2.1.2'' s1;
          (bpP, s3) = runSnmpWalk sys host community version ''1.3.6.1.2.1.17.1.4.1.2'' s2;
          (ifNameP, s4) = runSnmpWalk sys host community version ''1.3.6.1.2.1.31.1.1.1.1'' s3;
          (arpP, s5) = runSnmpWalk sys host community version ''1.3.6.1.2.1.4.22.1.2'' s4
      in case both fdbP (both qfdbP (both bpP (both ifNameP arpP))) of
           Pending \<Rightarrow> (Pending, s5)
         | Rejected e \<Rightarrow> (Rejected e, s5)
         | Resolved (fdbOut, qfdbOut, bpOut, ifNameOut, arpOut) \<Rightarrow>
             (let es = bridgeEntries cmp fdbOut qfdbOut bpOut ifNameOut arpOut in
              if length es = 0 then snmpLancomWlanClients sys cmp host community version s5
              else (Resolved (tableResult ''bridge'' es), s5)))"

section \<open>Notions of the specification\<close>

text \<open>
  The canonical MAC address of six octets: each octet as two lowercase hex digits, the
  pairs joined by colons.
\<close>

definition hexPair :: "nat \<Rightarrow> string" where
  "hexPair n = [''0123456789abcdef'' ! (n div 16), ''0123456789abcdef'' ! (n mod 16)]"

definition canonicalMac :: "nat list \<Rightarrow> string" where
  "canonicalMac octets = js_join '':'' (map hexPair octets)"

text \<open>The value of a decimal numeral, and the octets that a string of hex digits spells.\<close>

definition decimalValue :: "string \<Rightarrow> nat" where
  "decimalValue s = foldl (\<lambda>a c. 10 * a + (of_char c - 48)) 0 s"

definition hexDigits :: "char list" where
  "hexDigits = ''0123456789abcdefABCDEF''"

definition hexValue :: "char \<Rightarrow> nat" where
  "hexValue c = (case digitValue c of None \<Rightarrow> 0 | Some v \<Rightarrow> v)"

fun octetsOfHex :: "string \<Rightarrow> nat list" where
  "octetsOfHex (a # b # cs) = (16 * hexValue a + hexValue b) # octetsOfHex cs"
| "octetsOfHex cs = []"

text \<open>
  A collator with the numeric option, as an instance of the parameter: a run of digits
  counts as one unit that compares by its value and sorts before every other character;
  the other characters compare by code unit, without regard to case.
\<close>

function numericKey :: "string \<Rightarrow> (nat \<times> nat) list" where
  "numericKey [] = []"
| "numericKey (c # cs) =
     (if c \<in> set digit
      then (0, decimalValue (c # takeWhile (\<lambda>d. d \<in> set digit) cs))
             # numericKey (dropWhile (\<lambda>d. d \<in> set digit) cs)
      else (1, of_char (lowerChar c)) # numericKey cs)"
  by pat_completeness auto
termination
  by (relation "measure length") (auto simp: length_dropWhile_le less_Suc_eq_le)

definition numericCollator :: collator where
  "numericCollator a b =
     (if numericKey a < numericKey b then - 1 else if numericKey a = numericKey b then 0 else 1)"

text \<open>
  A comparator is consistent when the order it induces is total and transitive;
  \<^verbatim>\<open>sort\<close> promises a sorted result for such comparators only.
\<close>

definition consistent :: "('a \<Rightarrow> 'a \<Rightarrow> int) \<Rightarrow> bool" where
  "consistent cmp \<longleftrightarrow>
     (\<forall>a b. cmp a b \<le> 0 \<or> cmp b a \<le> 0) \<and>
     (\<forall>a b c. cmp a b \<le> 0 \<longrightarrow> cmp b c \<le> 0 \<longrightarrow> cmp a c \<le> 0)"

text \<open>The events that end a walk, and the text a process has written.\<close>

fun terminal :: "proc_event \<Rightarrow> bool" where
  "terminal (Close code) = True"
| "terminal Error = True"
| "terminal ev = False"

fun stdoutText :: "proc_event list \<Rightarrow> string" where
  "stdoutText [] = []"
| "stdoutText (Data d # evs) = d @ stdoutText evs"
| "stdoutText (ev # evs) = stdoutText evs"

text \<open>
  A STRING value stands in a walk text: after \<^verbatim>\<open>STRING:\<close> and white space, between
  optional quotes, a run of characters other than newline and quote that is not empty,
  followed by white space up to the end of a line.
\<close>

definition sysDescrValue :: "string \<Rightarrow> string \<Rightarrow> bool" where
  "sysDescrValue txt body \<longleftrightarrow>
     (\<exists>pre w1 q1 q2 w2 post.
        txt = pre @ ''STRING:'' @ w1 @ q1 @ body @ q2 @ w2 @ post \<and>
        set w1 \<subseteq> set whitespace \<and> (q1 = [] \<or> q1 = [CHR 0x22]) \<and>
        body \<noteq> [] \<and> set body \<inter> {CHR 0x0A, CHR 0x22} = {} \<and>
        (q2 = [] \<or> q2 = [CHR 0x22]) \<and> set w2 \<subseteq> set whitespace \<and>
        (post = [] \<or> hd post \<in> set lineTerminators))"

text \<open>
  The commands of the two batches of walks, and the promises a batch gets when its
  processes are spawned in turn.
\<close>

definition bridgeCommands :: "string \<Rightarrow> string \<Rightarrow> string \<Rightarrow> command list" where
  "bridgeCommands host community version =
     map (walkCommand host community version)
       [''1.3.6.1.2.1.17.4.3.1.2'', ''1.3.6.1.2.1.17.7.1.2.2.1.2'', ''1.3.6.1.2.1.17.1.4.1.2'',
        ''1.3.6.1.2.1.31.1.1.1.1'', ''1.3.6.1.2.1.4.22.1.2'']"

definition wlanCommands :: "string \<Rightarrow> string \<Rightarrow> string \<Rightarrow> command list" where
  "wlanCommands host community version =
     map (walkCommand host community version)
       [''1.3.6.1.4.1.2356.13.1.3.4.1.1'', ''1.3.6.1.4.1.2356.13.1.3.32.1.3'', ''1.3.6.1.2.1.4.22.1.2'']"

fun responses :: "os \<Rightarrow> command list \<Rightarrow> command list \<Rightarrow> string promise list" where
  "responses sys spawned [] = []"
| "responses sys spawned (c # cs) = settle (sys spawned c) # responses sys (spawned @ [c]) cs"

text \<open>
  Two systems to run the resolver on: one whose every process raises the same events,
  and an SNMP agent that answers a walk of an OID root with the text a table gives for
  it (the root is the last argument of the command) and exits with code 1 on any other.
  \<open>walkText\<close> is the text that the agent prints for a root, empty for a root that the
  table lacks. On both, \<^verbatim>\<open>spawn\<close> returns a child with standard output for every
  command.
\<close>

definition scripted :: "proc_event list \<Rightarrow> os" where
  "scripted evs spawned cmd = Returns (Child True evs)"

definition walkText :: "(string \<times> string) list \<Rightarrow> string \<Rightarrow> string" where
  "walkText table oid = (case map_of table oid of None \<Rightarrow> [] | Some t \<Rightarrow> t)"

definition agent :: "(string \<times> string) list \<Rightarrow> os" where
  "agent table spawned cmd =
     (case map_of table (last (snd cmd)) of
        None \<Rightarrow> Returns (Child True [Close (Some 1)])
      | Some t \<Rightarrow> Returns (Child True [Data t, Close (Some 0)]))"

text \<open>
  The \<^verbatim>\<open>spawn\<close> of Node checks its arguments before it starts a process: for a
  command or an argument that holds the NUL character it throws a TypeError with the
  code \<^verbatim>\<open>ERR_INVALID_ARG_VALUE\<close>. \<open>nodeSpawn\<close> puts this check in front of a system.
\<close>

definition nodeSpawn :: "os \<Rightarrow> os" where
  "nodeSpawn sys spawned cmd =
     (if CHR 0x00 \<in> set (concat (fst cmd # snd cmd)) then Throws ''ERR_INVALID_ARG_VALUE''
      else sys spawned cmd)"

text \<open>
  The port name of a wireless client: the SSID if one is known and not empty, the band
  for the codes 1 and 2, the channel if it is known and not 0.
\<close>

definition wlanPortName :: "string option \<Rightarrow> number option \<Rightarrow> number option \<Rightarrow> string" where
  "wlanPortName ssid b ch =
     (case ssid of None \<Rightarrow> ''WLAN'' | Some s \<Rightarrow> if s = [] then ''WLAN'' else ''WLAN: '' @ s)
     @ (if b = Some (Num 1) then '' (2.4G)'' else if b = Some (Num 2) then '' (5G)'' else [])
     @ (case ch of
          Some (Num n) \<Rightarrow> if n = 0 then [] else '' CH'' @ numToString (Num n) 10
        | _ \<Rightarrow> [])"

text \<open>
  The shape of a result: the counters agree with the entries, and the entries are in the
  order of the collator on their port names.
\<close>

definition shaped :: "collator \<Rightarrow> client_table_result \<Rightarrow> bool" where
  "shaped cmp r \<longleftrightarrow>
     count r = length (entries r) \<and>
     hasMacTable r = (entries r \<noteq> []) \<and>
     countWithIp r = length (filter (\<lambda>e. ip e \<noteq> None) (entries r)) \<and>
     sorted_wrt (\<lambda>a b. cmp (portName a) (portName b) \<le> 0) (entries r)"

text \<open>The MAC that a line of the client table walk decodes to, if the line matches.\<close>

definition clientLineMac :: "string \<Rightarrow> string option" where
  "clientLineMac line =
     (case js_match clientRe line of None \<Rightarrow> None | Some m \<Rightarrow> macFromDecOid (grp m 2))"

text \<open>
  The interface name of a bridge port: there is one when the port maps to an ifIndex
  other than 0 and that ifIndex has a name that is not empty.
\<close>

definition resolvedIfName :: "number obj \<Rightarrow> string obj \<Rightarrow> number \<Rightarrow> string option" where
  "resolvedIfName bpToIf ifNames bp =
     (case map_of bpToIf (numToString bp 10) of
        Some (Num i) \<Rightarrow>
          if i = 0 then None
          else (case map_of ifNames (numToString (Num i) 10) of
                  None \<Rightarrow> None
                | Some nm \<Rightarrow> if nm = [] then None else Some nm)
      | _ \<Rightarrow> None)"

text \<open>
  Three devices, after the examples of the specification: a switch with three learned
  addresses, of which only port 1 has a named interface; an access point without bridge
  tables and with one wireless client; and a device that answers no walk.
\<close>

definition switchDevice :: "(string \<times> string) list" where
  "switchDevice =
     [(''1.3.6.1.2.1.17.4.3.1.2'',
       ''.1.3.6.1.2.1.17.4.3.1.2.170.187.204.221.238.3 = INTEGER: 10\<newline>.1.3.6.1.2.1.17.4.3.1.2.170.187.204.221.238.2 = INTEGER: 2\<newline>.1.3.6.1.2.1.17.4.3.1.2.170.187.204.221.238.1 = INTEGER: 1\<newline>''),
      (''1.3.6.1.2.1.17.1.4.1.2'',
       ''.1.3.6.1.2.1.17.1.4.1.2.1 = INTEGER: 101\<newline>.1.3.6.1.2.1.17.1.4.1.2.2 = INTEGER: 102\<newline>''),
      (''1.3.6.1.2.1.31.1.1.1.1'',
       ''.1.3.6.1.2.1.31.1.1.1.1.101 = STRING: eth0\<newline>''),
      (''1.3.6.1.2.1.4.22.1.2'',
       ''.1.3.6.1.2.1.4.22.1.2.1.10.0.0.5 = Hex-STRING: AA BB CC DD EE 01 \<newline>'')]"

definition accessPoint :: "(string \<times> string) list" where
  "accessPoint =
     [(''1.3.6.1.4.1.2356.13.1.3.4.1.1'',
       ''.1.3.6.1.4.1.2356.13.1.3.4.1.1.2.170.187.204.221.238.1 = INTEGER: 36\<newline>.1.3.6.1.4.1.2356.13.1.3.4.1.1.3.170.187.204.221.238.1 = INTEGER: 2\<newline>''),
      (''1.3.6.1.4.1.2356.13.1.3.32.1.3'',
       ''.1.3.6.1.4.1.2356.13.1.3.32.1.3.170.187.204.221.238.1 = STRING: Guest\<newline>.1.3.6.1.4.1.2356.13.1.3.32.1.3.170.187.204.221.238.9 = STRING: Office\<newline>''),
      (''1.3.6.1.2.1.4.22.1.2'',
       ''.1.3.6.1.2.1.4.22.1.2.1.10.0.0.5 = Hex-STRING: AA BB CC DD EE 01 \<newline>.1.3.6.1.2.1.4.22.1.2.1.10.0.0.7 = Hex-STRING: AA BB CC DD EE 07 \<newline>'')]"

definition silentDevice :: "(string \<times> string) list" where
  "silentDevice = []"

text \<open>
  The invariant of the client table while it is built: no key twice, and each record
  stored under its own MAC.
\<close>

definition keyed :: "wlan_client obj \<Rightarrow> bool" where
  "keyed cl \<longleftrightarrow> distinct (map fst cl) \<and> (\<forall>(k, c) \<in> set cl. mac c = k)"

section \<open>Properties of the parsers\<close>

lemma js_split_nonempty: "js_split sep s \<noteq> []"
  by (induction s) (auto split: list.splits)


















lemma hex_char:
  assumes "c \<in> set hexDigits"
  shows "\<exists>v. digitValue c = Some v \<and> v < 16 \<and> lowerChar c = ''0123456789abcdef'' ! v"
proof -
  have "c = CHR ''0'' \<or> c = CHR ''1'' \<or> c = CHR ''2'' \<or> c = CHR ''3'' \<or> c = CHR ''4'' \<or> c = CHR ''5''
      \<or> c = CHR ''6'' \<or> c = CHR ''7'' \<or> c = CHR ''8'' \<or> c = CHR ''9'' \<or> c = CHR ''a'' \<or> c = CHR ''b''
      \<or> c = CHR ''c'' \<or> c = CHR ''d'' \<or> c = CHR ''e'' \<or> c = CHR ''f'' \<or> c = CHR ''A'' \<or> c = CHR ''B''
      \<or> c = CHR ''C'' \<or> c = CHR ''D'' \<or> c = CHR ''E'' \<or> c = CHR ''F''"
    using assms by (simp add: hexDigits_def)
  then show ?thesis
    by (elim disjE) (simp_all add: digitValue_def lowerChar_def upperChars_def lowerChars_def)
qed

lemma hexPair_of_digits:
  assumes "a \<in> set hexDigits" "b \<in> set hexDigits"
  shows "[lowerChar a, lowerChar b] = hexPair (16 * hexValue a + hexValue b)"
proof -
  obtain va where va: "digitValue a = Some va" "va < 16" "lowerChar a = ''0123456789abcdef'' ! va"
    using hex_char[OF assms(1)] by blast
  obtain vb where vb: "digitValue b = Some vb" "vb < 16" "lowerChar b = ''0123456789abcdef'' ! vb"
    using hex_char[OF assms(2)] by blast
  have "(16 * va + vb) div 16 = va" "(16 * va + vb) mod 16 = vb" using vb(2) by simp_all
  then show ?thesis by (simp add: hexPair_def hexValue_def va vb)
qed

lemma pairs_hex:
  "set ds \<subseteq> set hexDigits \<Longrightarrow> pairs (toLowerCase ds) = map hexPair (octetsOfHex ds)"
proof (induction ds rule: pairs.induct)
  case (1 a b cs)
  then show ?case using hexPair_of_digits[of a b] by (simp add: toLowerCase_def)
qed (simp_all add: toLowerCase_def)

lemma macFromHexStr_stripped:
  "macFromHexStr str =
     (if length (filter (\<lambda>c. c \<notin> set ('':'' @ whitespace)) str) = 12
      then Some (js_join '':'' (pairs (toLowerCase (filter (\<lambda>c. c \<notin> set ('':'' @ whitespace)) str))))
      else None)"
  by (simp add: macFromHexStr_def Let_def toLowerCase_def)

text \<open>
  C5, as the code has it. \<^verbatim>\<open>macFromHexStr\<close> deletes colons and white space and
  returns \<^verbatim>\<open>null\<close> exactly when what is left does not have 12 characters; it does not
  check that they are hex digits. When the 12 characters are hex digits, in either case
  and with separators anywhere, the result is the canonical MAC of the octets they
  spell, so all such spellings of one address give the same text.
\<close>

theorem macFromHexStr_canonical:
  "(macFromHexStr str = None \<longleftrightarrow> length (filter (\<lambda>c. c \<notin> set ('':'' @ whitespace)) str) \<noteq> 12) \<and>
   (filter (\<lambda>c. c \<notin> set ('':'' @ whitespace)) str = ds \<and> length ds = 12 \<and> set ds \<subseteq> set hexDigits
      \<longrightarrow> macFromHexStr str = Some (canonicalMac (octetsOfHex ds)))"
  by (auto simp: macFromHexStr_stripped pairs_hex canonicalMac_def)

theorem macFromHexStr_canonical_witness:
  "macFromHexStr ''AA:bb cc:DD:ee 0F'' = Some ''aa:bb:cc:dd:ee:0f'' \<and>
   macFromHexStr ''aabbccddee0f'' = Some ''aa:bb:cc:dd:ee:0f'' \<and>
   macFromHexStr ''aa:bb:cc'' = None"
proof -
  have f: "filter (\<lambda>c. c \<notin> set ('':'' @ whitespace)) ''AA:bb cc:DD:ee 0F'' = ''AAbbccDDee0F''"
    by (simp add: whitespace_def)
  have g: "filter (\<lambda>c. c \<notin> set ('':'' @ whitespace)) ''aabbccddee0f'' = ''aabbccddee0f''"
    by (simp add: whitespace_def)
  have h: "filter (\<lambda>c. c \<notin> set ('':'' @ whitespace)) ''aa:bb:cc'' = ''aabbcc''"
    by (simp add: whitespace_def)
  have c1: "canonicalMac (octetsOfHex ''AAbbccDDee0F'') = ''aa:bb:cc:dd:ee:0f''"
    by (simp add: canonicalMac_def hexPair_def hexValue_def digitValue_def)
  have c2: "canonicalMac (octetsOfHex ''aabbccddee0f'') = ''aa:bb:cc:dd:ee:0f''"
    by (simp add: canonicalMac_def hexPair_def hexValue_def digitValue_def)
  show ?thesis
    using macFromHexStr_canonical[of "''AA:bb cc:DD:ee 0F''" "''AAbbccDDee0F''"]
      macFromHexStr_canonical[of "''aabbccddee0f''" "''aabbccddee0f''"]
      macFromHexStr_canonical[of "''aa:bb:cc''" "''aabbcc''"]
    unfolding f g h c1 c2
    by (simp add: hexDigits_def)
qed

text \<open>
  C5 as stated fails: 12 characters that are not hex digits are accepted and come back
  in the shape of a MAC.
\<close>

theorem macFromHexStr_not_hex_counterexample:
  "macFromHexStr ''zzzzzzzzzzzz'' = Some ''zz:zz:zz:zz:zz:zz'' \<and> CHR ''z'' \<notin> set hexDigits"
  by (simp add: macFromHexStr_def toLowerCase_def lowerChar_def upperChars_def lowerChars_def
      whitespace_def hexDigits_def)

section \<open>The walk executor\<close>

lemma settled_stays:
  "settled w \<noteq> Pending \<Longrightarrow> settled (foldl onEvent w evs) = settled w"
proof (induction evs arbitrary: w)
  case Nil
  then show ?case by simp
next
  case (Cons ev evs)
  have "settled (onEvent w ev) = settled w"
    using Cons.prems by (cases ev) (auto simp: resolve_def split: promise.splits)
  then show ?case using Cons by simp
qed

lemma running_collects:
  "settled w = Pending \<Longrightarrow> \<forall>ev \<in> set pre. \<not> terminal ev \<Longrightarrow>
     settled (foldl onEvent w pre) = Pending \<and> out (foldl onEvent w pre) = out w @ stdoutText pre"
proof (induction pre arbitrary: w)
  case Nil
  then show ?case by simp
next
  case (Cons ev pre)
  then show ?case by (cases ev) auto
qed

lemma settle_started: "settle (Returns (Child True evs)) = settled (foldl onEvent walkStart evs)"
  by (simp add: settle_def executor_def)

lemma settle_close:
  assumes "\<forall>ev \<in> set pre. \<not> terminal ev"
  shows "settle (Returns (Child True (pre @ Close code # post))) = Resolved (stdoutText pre)"
proof -
  have r: "settled (foldl onEvent walkStart pre) = Pending
      \<and> out (foldl onEvent walkStart pre) = stdoutText pre"
    using running_collects[of walkStart pre] assms by (simp add: walkStart_def)
  have "settled (onEvent (foldl onEvent walkStart pre) (Close code)) = Resolved (stdoutText pre)"
    using r by (simp add: resolve_def)
  then show ?thesis
    unfolding settle_started by (simp add: settled_stays)
qed

lemma settle_error:
  assumes "\<forall>ev \<in> set pre. \<not> terminal ev"
  shows "settle (Returns (Child True (pre @ Error # post))) = Resolved []"
proof -
  have r: "settled (foldl onEvent walkStart pre) = Pending"
    using running_collects[of walkStart pre] assms by (simp add: walkStart_def)
  have "settled (onEvent (foldl onEvent walkStart pre) Error) = Resolved []"
    using r by (simp add: resolve_def)
  then show ?thesis
    unfolding settle_started by (simp add: settled_stays)
qed

lemma settle_started_pending_iff:
  "settle (Returns (Child True evs)) = Pending \<longleftrightarrow> (\<forall>ev \<in> set evs. \<not> terminal ev)"
proof
  assume p: "settle (Returns (Child True evs)) = Pending"
  show "\<forall>ev \<in> set evs. \<not> terminal ev"
  proof (rule ccontr)
    assume "\<not> (\<forall>ev \<in> set evs. \<not> terminal ev)"
    then have "\<exists>pre ev post. evs = pre @ ev # post \<and> terminal ev \<and> (\<forall>e \<in> set pre. \<not> terminal e)"
      using split_list_first_prop[of evs terminal] by blast
    then obtain pre ev post
      where d: "evs = pre @ ev # post" "terminal ev" "\<forall>e \<in> set pre. \<not> terminal e"
      by blast
    then show False using p settle_close[of pre _ post] settle_error[of pre post]
      by (cases ev) auto
  qed
next
  assume "\<forall>ev \<in> set evs. \<not> terminal ev"
  then show "settle (Returns (Child True evs)) = Pending"
    using running_collects[of walkStart evs] by (simp add: settle_started walkStart_def)
qed

lemma settle_started_not_rejected: "settle (Returns (Child True evs)) \<noteq> Rejected e"
proof -
  have "\<And>w. settled w \<noteq> Rejected e \<Longrightarrow> settled (foldl onEvent w evs) \<noteq> Rejected e"
  proof (induction evs)
    case Nil
    then show ?case by simp
  next
    case (Cons ev evs)
    have "settled (onEvent w ev) \<noteq> Rejected e"
      using Cons.prems by (cases ev) (auto simp: resolve_def split: promise.splits)
    then show ?case using Cons.IH by simp
  qed
  then show ?thesis by (simp add: settle_started walkStart_def)
qed

text \<open>
  The promise is rejected exactly when the executor throws, and pending exactly when
  the child was started and has raised neither \<^verbatim>\<open>close\<close> nor \<^verbatim>\<open>error\<close>.
\<close>

lemma settle_rejected_iff:
  "settle r = Rejected e \<longleftrightarrow> r = Throws e \<or> (\<exists>evs. r = Returns (Child False evs)) \<and> e = ''TypeError''"
proof (cases r)
  case (Throws x)
  then show ?thesis by (simp add: settle_def executor_def)
next
  case (Returns c)
  obtain hasStdout evs where c: "c = Child hasStdout evs" by (cases c)
  show ?thesis
  proof (cases hasStdout)
    case True
    then show ?thesis using Returns c settle_started_not_rejected[of evs e] by simp
  next
    case False
    then show ?thesis using Returns c by (auto simp: settle_def executor_def)
  qed
qed

lemma settle_pending_iff:
  "settle r = Pending \<longleftrightarrow> (\<exists>evs. r = Returns (Child True evs) \<and> (\<forall>ev \<in> set evs. \<not> terminal ev))"
proof (cases r)
  case (Throws x)
  then show ?thesis by (simp add: settle_def executor_def)
next
  case (Returns c)
  obtain hasStdout evs where c: "c = Child hasStdout evs" by (cases c)
  show ?thesis
  proof (cases hasStdout)
    case True
    then show ?thesis using Returns c settle_started_pending_iff[of evs] by simp
  next
    case False
    then show ?thesis using Returns c by (simp add: settle_def executor_def)
  qed
qed

text \<open>
  The kill is sent exactly when the timer expires before the child has raised
  \<^verbatim>\<open>close\<close> or \<^verbatim>\<open>error\<close>: either of them clears the timer.
\<close>

lemma armed_or_killed:
  "timer w \<or> killed w \<Longrightarrow> \<forall>ev \<in> set pre. \<not> terminal ev \<Longrightarrow>
     timer (foldl onEvent w pre) \<or> killed (foldl onEvent w pre)"
proof (induction pre arbitrary: w)
  case Nil
  then show ?case by simp
next
  case (Cons ev pre)
  have "timer (onEvent w ev) \<or> killed (onEvent w ev)"
    using Cons.prems by (cases ev) auto
  then show ?case using Cons by simp
qed

lemma killed_stays: "killed w \<Longrightarrow> killed (foldl onEvent w evs)"
proof (induction evs arbitrary: w)
  case Nil
  then show ?case by simp
next
  case (Cons ev evs)
  have "killed (onEvent w ev)"
    using Cons.prems by (cases ev) auto
  then show ?case using Cons.IH by simp
qed

lemma timeout_kills:
  assumes "\<forall>ev \<in> set pre. \<not> terminal ev"
  shows "killed (foldl onEvent walkStart (pre @ Timeout # post))"
proof -
  have "timer (foldl onEvent walkStart pre) \<or> killed (foldl onEvent walkStart pre)"
    using armed_or_killed[of walkStart pre] assms by (simp add: walkStart_def)
  then have "killed (onEvent (foldl onEvent walkStart pre) Timeout)"
    by auto
  then show ?thesis
    using killed_stays by simp
qed

lemma killed_only_at_timeout:
  "\<not> killed w \<Longrightarrow> killed (foldl onEvent w evs) \<Longrightarrow>
     timer w \<and> (\<exists>pre post. evs = pre @ Timeout # post \<and> (\<forall>ev \<in> set pre. \<not> terminal ev))"
proof (induction evs arbitrary: w)
  case Nil
  then show ?case by simp
next
  case (Cons ev evs)
  show ?case
  proof (cases ev)
    case (Data d)
    have n: "\<not> killed (onEvent w ev)" using Cons.prems(1) Data by simp
    have k: "killed (foldl onEvent (onEvent w ev) evs)" using Cons.prems(2) by simp
    from Cons.IH[OF n k] obtain pre post
      where t: "timer (onEvent w ev)" and d: "evs = pre @ Timeout # post"
        and p: "\<forall>e \<in> set pre. \<not> terminal e"
      by blast
    have "ev # evs = (ev # pre) @ Timeout # post \<and> (\<forall>e \<in> set (ev # pre). \<not> terminal e)"
      using d p Data by simp
    then show ?thesis using t Data by (intro conjI exI[of _ "ev # pre"] exI[of _ post]) simp_all
  next
    case (Close code)
    have n: "\<not> killed (onEvent w ev)" using Cons.prems(1) Close by simp
    have k: "killed (foldl onEvent (onEvent w ev) evs)" using Cons.prems(2) by simp
    from Cons.IH[OF n k] have "timer (onEvent w ev)" by blast
    then show ?thesis using Close by simp
  next
    case Error
    have n: "\<not> killed (onEvent w ev)" using Cons.prems(1) Error by simp
    have k: "killed (foldl onEvent (onEvent w ev) evs)" using Cons.prems(2) by simp
    from Cons.IH[OF n k] have "timer (onEvent w ev)" by blast
    then show ?thesis using Error by simp
  next
    case Timeout
    show ?thesis
    proof (cases "timer w")
      case True
      have "ev # evs = [] @ Timeout # evs \<and> (\<forall>e \<in> set []. \<not> terminal e)"
        using Timeout by simp
      then show ?thesis using True by blast
    next
      case False
      have n: "\<not> killed (onEvent w ev)" using Cons.prems(1) Timeout False by simp
      have k: "killed (foldl onEvent (onEvent w ev) evs)" using Cons.prems(2) by simp
      from Cons.IH[OF n k] have "timer (onEvent w ev)" by blast
      then show ?thesis using Timeout False by simp
    qed
  qed
qed

lemma killed_iff:
  "killed (executor r) \<longleftrightarrow>
     (\<exists>pre post. r = Returns (Child True (pre @ Timeout # post)) \<and> (\<forall>ev \<in> set pre. \<not> terminal ev))"
proof (cases r)
  case (Throws x)
  then show ?thesis by (simp add: executor_def)
next
  case (Returns c)
  obtain hasStdout evs where c: "c = Child hasStdout evs" by (cases c)
  show ?thesis
  proof (cases hasStdout)
    case False
    then show ?thesis using Returns c by (simp add: executor_def)
  next
    case True
    have e: "executor r = foldl onEvent walkStart evs"
      using Returns c True by (simp add: executor_def)
    show ?thesis
    proof
      assume "killed (executor r)"
      then have "killed (foldl onEvent walkStart evs)" using e by simp
      then have "\<exists>pre post. evs = pre @ Timeout # post \<and> (\<forall>ev \<in> set pre. \<not> terminal ev)"
        using killed_only_at_timeout[of walkStart evs] by (simp add: walkStart_def)
      then show "\<exists>pre post. r = Returns (Child True (pre @ Timeout # post)) \<and> (\<forall>ev \<in> set pre. \<not> terminal ev)"
        using Returns c True by simp
    next
      assume "\<exists>pre post. r = Returns (Child True (pre @ Timeout # post)) \<and> (\<forall>ev \<in> set pre. \<not> terminal ev)"
      then obtain pre post
        where d: "r = Returns (Child True (pre @ Timeout # post))" and p: "\<forall>ev \<in> set pre. \<not> terminal ev"
        by blast
      show "killed (executor r)"
        using timeout_kills[OF p, of post] d by (simp add: executor_def)
    qed
  qed
qed

text \<open>
  C1, as the code has it. The promise of \<^verbatim>\<open>runSnmpWalk\<close> is rejected exactly when
  the executor throws before the handlers are attached: when \<^verbatim>\<open>spawn\<close> throws, with
  the error thrown, and when the child has no standard output, with a TypeError. Once
  the child is started, the promise is never rejected. It is resolved at the first
  \<^verbatim>\<open>close\<close> or \<^verbatim>\<open>error\<close> event of the child: at \<^verbatim>\<open>close\<close> with the text
  written to standard output until then, whatever the exit code and also after the
  expiry of the timer; at \<^verbatim>\<open>error\<close> with the empty text. It stays pending exactly
  as long as the started child has raised neither event. The kill is sent exactly when
  the timer expires before the first \<^verbatim>\<open>close\<close> or \<^verbatim>\<open>error\<close>; the timer does not
  resolve the promise, the \<^verbatim>\<open>close\<close> that follows the kill does.
\<close>

theorem runSnmpWalk_outcome:
  "(fst (runSnmpWalk sys host community version oid spawned) = Rejected e
      \<longleftrightarrow> sys spawned (walkCommand host community version oid) = Throws e
          \<or> (\<exists>evs. sys spawned (walkCommand host community version oid) = Returns (Child False evs))
             \<and> e = ''TypeError'') \<and>
   ((\<forall>ev \<in> set pre. \<not> terminal ev) \<and>
      sys spawned (walkCommand host community version oid) = Returns (Child True (pre @ Close code # post))
      \<longrightarrow> fst (runSnmpWalk sys host community version oid spawned) = Resolved (stdoutText pre)) \<and>
   ((\<forall>ev \<in> set pre. \<not> terminal ev) \<and>
      sys spawned (walkCommand host community version oid) = Returns (Child True (pre @ Error # post))
      \<longrightarrow> fst (runSnmpWalk sys host community version oid spawned) = Resolved []) \<and>
   (fst (runSnmpWalk sys host community version oid spawned) = Pending
      \<longleftrightarrow> (\<exists>evs. sys spawned (walkCommand host community version oid) = Returns (Child True evs)
                \<and> (\<forall>ev \<in> set evs. \<not> terminal ev))) \<and>
   (killed (executor (sys spawned (walkCommand host community version oid)))
      \<longleftrightarrow> (\<exists>pre post.
             sys spawned (walkCommand host community version oid) = Returns (Child True (pre @ Timeout # post))
             \<and> (\<forall>ev \<in> set pre. \<not> terminal ev))) \<and>
   snd (runSnmpWalk sys host community version oid spawned)
     = spawned @ [walkCommand host community version oid]"
proof (intro conjI impI)
  show "fst (runSnmpWalk sys host community version oid spawned) = Rejected e
      \<longleftrightarrow> sys spawned (walkCommand host community version oid) = Throws e
          \<or> (\<exists>evs. sys spawned (walkCommand host community version oid) = Returns (Child False evs))
             \<and> e = ''TypeError''"
    by (simp add: runSnmpWalk_def Let_def settle_rejected_iff)
next
  assume "(\<forall>ev \<in> set pre. \<not> terminal ev) \<and>
      sys spawned (walkCommand host community version oid) = Returns (Child True (pre @ Close code # post))"
  then show "fst (runSnmpWalk sys host community version oid spawned) = Resolved (stdoutText pre)"
    by (simp add: runSnmpWalk_def Let_def settle_close)
next
  assume "(\<forall>ev \<in> set pre. \<not> terminal ev) \<and>
      sys spawned (walkCommand host community version oid) = Returns (Child True (pre @ Error # post))"
  then show "fst (runSnmpWalk sys host community version oid spawned) = Resolved []"
    by (simp add: runSnmpWalk_def Let_def settle_error)
next
  show "fst (runSnmpWalk sys host community version oid spawned) = Pending
      \<longleftrightarrow> (\<exists>evs. sys spawned (walkCommand host community version oid) = Returns (Child True evs)
                \<and> (\<forall>ev \<in> set evs. \<not> terminal ev))"
    by (simp add: runSnmpWalk_def Let_def settle_pending_iff)
next
  show "killed (executor (sys spawned (walkCommand host community version oid)))
      \<longleftrightarrow> (\<exists>pre post.
             sys spawned (walkCommand host community version oid) = Returns (Child True (pre @ Timeout # post))
             \<and> (\<forall>ev \<in> set pre. \<not> terminal ev))"
    by (rule killed_iff)
next
  show "snd (runSnmpWalk sys host community version oid spawned)
     = spawned @ [walkCommand host community version oid]"
    by (simp add: runSnmpWalk_def Let_def)
qed

theorem runSnmpWalk_outcome_witness:
  "fst (runSnmpWalk (scripted [Data ''a'', Timeout, Data ''b'', Close None, Error])
          ''10.0.0.1'' ''public'' ''2c'' ''1.3.6.1.2.1.1.1.0'' []) = Resolved ''ab'' \<and>
   killed (executor (scripted [Data ''a'', Timeout, Data ''b'', Close None, Error] []
          (walkCommand ''10.0.0.1'' ''public'' ''2c'' ''1.3.6.1.2.1.1.1.0''))) \<and>
   fst (runSnmpWalk (scripted [Error, Close (Some (- 2))])
          ''10.0.0.1'' ''public'' ''2c'' ''1.3.6.1.2.1.1.1.0'' []) = Resolved [] \<and>
   fst (runSnmpWalk (scripted [Timeout, Close None])
          ''10.0.0.1'' ''public'' ''2c'' ''1.3.6.1.2.1.1.1.0'' []) = Resolved [] \<and>
   fst (runSnmpWalk (scripted [Data ''a'', Timeout])
          ''10.0.0.1'' ''public'' ''2c'' ''1.3.6.1.2.1.1.1.0'' []) = Pending \<and>
   fst (runSnmpWalk (nodeSpawn (scripted [Close (Some 0)]))
          (''10.0.0.1'' @ [CHR 0x00]) ''public'' ''2c'' ''1.3.6.1.2.1.1.1.0'' [])
     = Rejected ''ERR_INVALID_ARG_VALUE''"
proof (intro conjI)
  let ?c = "walkCommand ''10.0.0.1'' ''public'' ''2c'' ''1.3.6.1.2.1.1.1.0''"
  let ?s = "scripted [Data ''a'', Timeout, Data ''b'', Close None, Error]"
  have s: "?s [] ?c = Returns (Child True ([Data ''a'', Timeout, Data ''b''] @ Close None # [Error]))"
    by (simp add: scripted_def)
  have n: "\<forall>ev \<in> set [Data ''a'', Timeout, Data ''b'']. \<not> terminal ev"
    by simp
  show "fst (runSnmpWalk ?s ''10.0.0.1'' ''public'' ''2c'' ''1.3.6.1.2.1.1.1.0'' []) = Resolved ''ab''"
    using runSnmpWalk_outcome[where sys = ?s and host = "''10.0.0.1''" and community = "''public''"
        and version = "''2c''" and oid = "''1.3.6.1.2.1.1.1.0''" and spawned = "[]"
        and pre = "[Data ''a'', Timeout, Data ''b'']" and code = None and post = "[Error]"] s n
    by simp
  have k: "?s [] ?c = Returns (Child True ([Data ''a''] @ Timeout # [Data ''b'', Close None, Error]))
      \<and> (\<forall>ev \<in> set [Data ''a'']. \<not> terminal ev)"
    by (simp add: scripted_def)
  show "killed (executor (?s [] ?c))"
    using runSnmpWalk_outcome[where sys = ?s and host = "''10.0.0.1''" and community = "''public''"
        and version = "''2c''" and oid = "''1.3.6.1.2.1.1.1.0''" and spawned = "[]"] k
    by blast
next
  let ?c = "walkCommand ''10.0.0.1'' ''public'' ''2c'' ''1.3.6.1.2.1.1.1.0''"
  let ?s = "scripted [Error, Close (Some (- 2))]"
  have s: "?s [] ?c = Returns (Child True ([] @ Error # [Close (Some (- 2))]))"
    by (simp add: scripted_def)
  show "fst (runSnmpWalk ?s ''10.0.0.1'' ''public'' ''2c'' ''1.3.6.1.2.1.1.1.0'' []) = Resolved []"
    using runSnmpWalk_outcome[where sys = ?s and host = "''10.0.0.1''" and community = "''public''"
        and version = "''2c''" and oid = "''1.3.6.1.2.1.1.1.0''" and spawned = "[]"
        and pre = "[]" and post = "[Close (Some (- 2))]"] s
    by simp
next
  let ?c = "walkCommand ''10.0.0.1'' ''public'' ''2c'' ''1.3.6.1.2.1.1.1.0''"
  let ?s = "scripted [Timeout, Close None]"
  have s: "?s [] ?c = Returns (Child True ([Timeout] @ Close None # []))"
    by (simp add: scripted_def)
  show "fst (runSnmpWalk ?s ''10.0.0.1'' ''public'' ''2c'' ''1.3.6.1.2.1.1.1.0'' []) = Resolved []"
    using runSnmpWalk_outcome[where sys = ?s and host = "''10.0.0.1''" and community = "''public''"
        and version = "''2c''" and oid = "''1.3.6.1.2.1.1.1.0''" and spawned = "[]"
        and pre = "[Timeout]" and code = None and post = "[]"] s
    by simp
next
  let ?c = "walkCommand ''10.0.0.1'' ''public'' ''2c'' ''1.3.6.1.2.1.1.1.0''"
  let ?s = "scripted [Data ''a'', Timeout]"
  have s: "?s [] ?c = Returns (Child True [Data ''a'', Timeout])
      \<and> (\<forall>ev \<in> set [Data ''a'', Timeout]. \<not> terminal ev)"
    by (simp add: scripted_def)
  show "fst (runSnmpWalk ?s ''10.0.0.1'' ''public'' ''2c'' ''1.3.6.1.2.1.1.1.0'' []) = Pending"
    using runSnmpWalk_outcome[where sys = ?s and host = "''10.0.0.1''" and community = "''public''"
        and version = "''2c''" and oid = "''1.3.6.1.2.1.1.1.0''" and spawned = "[]"] s
    by blast
next
  let ?h = "''10.0.0.1'' @ [CHR 0x00]"
  let ?s = "nodeSpawn (scripted [Close (Some 0)])"
  have s: "?s [] (walkCommand ?h ''public'' ''2c'' ''1.3.6.1.2.1.1.1.0'') = Throws ''ERR_INVALID_ARG_VALUE''"
    by (simp add: nodeSpawn_def walkCommand_def)
  show "fst (runSnmpWalk ?s ?h ''public'' ''2c'' ''1.3.6.1.2.1.1.1.0'' []) = Rejected ''ERR_INVALID_ARG_VALUE''"
    using runSnmpWalk_outcome[where sys = ?s and host = ?h and community = "''public''"
        and version = "''2c''" and oid = "''1.3.6.1.2.1.1.1.0''" and spawned = "[]"
        and e = "''ERR_INVALID_ARG_VALUE''"] s
    by blast
qed

text \<open>
  C1 as stated fails on both counts. A process that has written text and then exits
  with a code other than 0, or is killed at the timeout, resolves to that text, not to
  the empty text; a process that does not end after the kill leaves the promise
  pending. And the promise is rejected when \<^verbatim>\<open>spawn\<close> throws, as that of Node does
  for a host that holds the NUL character.
\<close>

theorem runSnmpWalk_claim_counterexample:
  "fst (runSnmpWalk (scripted [Data ''partial'', Close (Some 1)])
          ''10.0.0.1'' ''public'' ''2c'' ''1.3.6.1.2.1.1.1.0'' []) = Resolved ''partial'' \<and>
   fst (runSnmpWalk (scripted [Data ''partial'', Timeout, Close None])
          ''10.0.0.1'' ''public'' ''2c'' ''1.3.6.1.2.1.1.1.0'' []) = Resolved ''partial'' \<and>
   fst (runSnmpWalk (scripted [Data ''partial'', Timeout])
          ''10.0.0.1'' ''public'' ''2c'' ''1.3.6.1.2.1.1.1.0'' []) = Pending \<and>
   fst (runSnmpWalk (nodeSpawn (scripted [Data ''partial'', Close (Some 0)]))
          (''10.0.0.1'' @ [CHR 0x00]) ''public'' ''2c'' ''1.3.6.1.2.1.1.1.0'' [])
     = Rejected ''ERR_INVALID_ARG_VALUE''"
  by (simp add: runSnmpWalk_def Let_def scripted_def nodeSpawn_def walkCommand_def
      settle_def executor_def walkStart_def resolve_def)

section \<open>The matcher and the meaning of a pattern\<close>

lemma rx_sound: "st' \<in> set (rx r st) \<Longrightarrow> rmatch r st st'"
proof (induction r st arbitrary: st' rule: rx.induct)
  case (1 l st)
  then have t: "take (length l) (fst st) = l" and "st' = (drop (length l) (fst st), snd st)"
    by (auto split: if_splits)
  have "fst st = l @ drop (length l) (fst st)"
    using append_take_drop_id[of "length l" "fst st"] t by simp
  note this \<open>st' = (drop (length l) (fst st), snd st)\<close>
  then show ?case using rmatch.Lit[of l "drop (length l) (fst st)" "snd st"] by (cases st) simp
next
  case (2 cs st)
  then show ?case by (cases st) (auto split: list.splits if_splits intro: rmatch.Cls)
next
  case (3 cs st)
  then show ?case by (cases st) (auto split: list.splits if_splits intro: rmatch.NCls)
next
  case (4 a b st)
  from "4.prems" obtain st1 where s: "st1 \<in> set (rx a st)" "st' \<in> set (rx b st1)"
    by auto
  show ?case using "4.IH"(1)[OF s(1)] "4.IH"(2)[OF s(1) s(2)] by (rule rmatch.Seq)
next
  case (5 a st)
  from "5.prems" consider "st' = st" | "st' \<in> set (rx a st)" by auto
  then show ?case
  proof cases
    case 1
    then show ?thesis by (simp add: rmatch.OptNone)
  next
    case 2
    show ?thesis using "5.IH"[OF 2] by (rule rmatch.OptSome)
  qed
next
  case (6 a st)
  have "st' \<in> set (rx (Star a) st)" by (rule "6.prems")
  then have "st' \<in> set [st] \<union>
      (\<Union>st1 \<in> set (rx a st). set (if length (fst st1) < length (fst st) then rx (Star a) st1 else []))"
    by (simp only: rx.simps(6)[of a st] set_append set_concat set_map set_simps image_image) blast
  then consider "st' = st"
    | st1 where "st1 \<in> set (rx a st)"
        "st' \<in> set (if length (fst st1) < length (fst st) then rx (Star a) st1 else [])"
    by (auto simp del: rx.simps)
  then show ?case
  proof cases
    case 1
    then show ?thesis by (simp add: rmatch.StarNil del: rx.simps)
  next
    case 2
    have lt: "length (fst st1) < length (fst st)"
      using 2(2) by (cases "length (fst st1) < length (fst st)") (simp_all del: rx.simps)
    then have m: "st' \<in> set (rx (Star a) st1)" using 2(2) by (simp del: rx.simps)
    show ?thesis using "6.IH"(1)[OF 2(1)] "6.IH"(2)[OF 2(1) lt m] by (rule rmatch.StarStep)
  qed
next
  case (7 a st)
  have "st' \<in> set (rx (StarLazy a) st)" by (rule "7.prems")
  then have "st' \<in> set [st] \<union>
      (\<Union>st1 \<in> set (rx a st). set (if length (fst st1) < length (fst st) then rx (StarLazy a) st1 else []))"
    by (simp only: rx.simps(7)[of a st] set_append set_concat set_map set_simps image_image) blast
  then consider "st' = st"
    | st1 where "st1 \<in> set (rx a st)"
        "st' \<in> set (if length (fst st1) < length (fst st) then rx (StarLazy a) st1 else [])"
    by (auto simp del: rx.simps)
  then show ?case
  proof cases
    case 1
    then show ?thesis by (simp add: rmatch.LazyNil del: rx.simps)
  next
    case 2
    have lt: "length (fst st1) < length (fst st)"
      using 2(2) by (cases "length (fst st1) < length (fst st)") (simp_all del: rx.simps)
    then have m: "st' \<in> set (rx (StarLazy a) st1)" using 2(2) by (simp del: rx.simps)
    show ?thesis using "7.IH"(1)[OF 2(1)] "7.IH"(2)[OF 2(1) lt m] by (rule rmatch.LazyStep)
  qed
next
  case (8 n a st)
  then obtain st1 where s: "st1 \<in> set (rx a st)"
      "st' = (fst st1, AList.update n (take (length (fst st) - length (fst st1)) (fst st)) (snd st1))"
    by auto
  have "rmatch a (fst st, snd st) (fst st1, snd st1)" using "8.IH"[OF s(1)] by simp
  then have "rmatch (Grp n a) (fst st, snd st) (fst st1, AList.update n (take (length (fst st) - length (fst st1)) (fst st)) (snd st1))"
    by (rule rmatch.Grp)
  then show ?case using s(2) by simp
next
  case (9 st)
  then show ?case by (cases st) (auto split: if_splits intro: rmatch.EndInput)
next
  case (10 st)
  then show ?case by (cases st) (auto split: list.splits if_splits intro: rmatch.EndLine)
qed

lemma rmatch_suffix: "rmatch r st st' \<Longrightarrow> \<exists>w. fst st = w @ fst st'"
proof (induction rule: rmatch.induct)
  case (Seq a st st1 b st2)
  then show ?case by (metis append.assoc)
next
  case (StarStep a st st1 st2)
  then show ?case by (metis append.assoc)
next
  case (LazyStep a st st1 st2)
  then show ?case by (metis append.assoc)
qed auto

lemma rmatch_no_progress:
  assumes "rmatch r st st'" "\<not> length (fst st') < length (fst st)"
  shows "fst st' = fst st"
proof -
  obtain w where "fst st = w @ fst st'" using rmatch_suffix[OF assms(1)] by blast
  then show ?thesis using assms(2) by (cases w) auto
qed

lemma star_nil_mem: "st \<in> set (rx (Star a) st)"
  by (simp only: rx.simps(6)[of a st] set_append set_simps) blast

lemma star_step_mem:
  assumes "st1 \<in> set (rx a st)" "length (fst st1) < length (fst st)" "st2 \<in> set (rx (Star a) st1)"
  shows "st2 \<in> set (rx (Star a) st)"
proof -
  have "st2 \<in> set (if length (fst st1) < length (fst st) then rx (Star a) st1 else [])"
    using assms(2,3) by (simp del: rx.simps)
  then have "st2 \<in> (\<Union>x \<in> set (rx a st). set (if length (fst x) < length (fst st) then rx (Star a) x else []))"
    using assms(1) by blast
  then show ?thesis
    by (simp only: rx.simps(6)[of a st] set_append set_concat set_map image_image) blast
qed

lemma lazy_nil_mem: "st \<in> set (rx (StarLazy a) st)"
  by (simp only: rx.simps(7)[of a st] set_simps) blast

lemma lazy_step_mem:
  assumes "st1 \<in> set (rx a st)" "length (fst st1) < length (fst st)" "st2 \<in> set (rx (StarLazy a) st1)"
  shows "st2 \<in> set (rx (StarLazy a) st)"
proof -
  have "st2 \<in> set (if length (fst st1) < length (fst st) then rx (StarLazy a) st1 else [])"
    using assms(2,3) by (simp del: rx.simps)
  then have "st2 \<in> (\<Union>x \<in> set (rx a st). set (if length (fst x) < length (fst st) then rx (StarLazy a) x else []))"
    using assms(1) by blast
  then show ?thesis
    by (simp only: rx.simps(7)[of a st] set_simps set_concat set_map image_image) blast
qed

lemma rx_complete: "rmatch r st st' \<Longrightarrow> \<exists>d'. (fst st', d') \<in> set (rx r (fst st, d))"
proof (induction arbitrary: d rule: rmatch.induct)
  case (Lit l s c)
  then show ?case by simp
next
  case (Cls x cs s c)
  then show ?case by simp
next
  case (NCls x cs s c)
  then show ?case by simp
next
  case (Seq a st st1 b st2)
  obtain d1 where d1: "(fst st1, d1) \<in> set (rx a (fst st, d))" using Seq.IH(1) by blast
  obtain d2 where d2: "(fst st2, d2) \<in> set (rx b (fst st1, d1))" using Seq.IH(2)[of d1] by auto
  have "(fst st2, d2) \<in> set (rx (Seq a b) (fst st, d))"
    using d1 d2 by (simp del: rx.simps add: rx.simps(4)) blast
  then show ?case by blast
next
  case (OptNone a st)
  have "(fst st, d) \<in> set (rx (Opt a) (fst st, d))" by (simp del: rx.simps add: rx.simps(5))
  then show ?case by blast
next
  case (OptSome a st st1)
  obtain d1 where d1: "(fst st1, d1) \<in> set (rx a (fst st, d))" using OptSome.IH by blast
  show ?case
  proof (cases "length (fst st1) < length (fst st)")
    case True
    then have "(fst st1, d1) \<in> set (rx (Opt a) (fst st, d))"
      using d1 by (simp del: rx.simps add: rx.simps(5))
    then show ?thesis by blast
  next
    case False
    then have "fst st1 = fst st" using rmatch_no_progress[OF OptSome.hyps] by simp
    moreover have "(fst st, d) \<in> set (rx (Opt a) (fst st, d))" by (simp del: rx.simps add: rx.simps(5))
    ultimately show ?thesis by auto
  qed
next
  case (StarNil a st)
  show ?case using star_nil_mem[of "(fst st, d)" a] by blast
next
  case (StarStep a st st1 st2)
  obtain d1 where d1: "(fst st1, d1) \<in> set (rx a (fst st, d))" using StarStep.IH(1) by blast
  show ?case
  proof (cases "length (fst st1) < length (fst st)")
    case True
    obtain d2 where d2: "(fst st2, d2) \<in> set (rx (Star a) (fst st1, d1))"
      using StarStep.IH(2)[of d1] by (auto simp del: rx.simps)
    have "(fst st2, d2) \<in> set (rx (Star a) (fst st, d))"
      using star_step_mem[OF d1 _ d2] True by (simp del: rx.simps)
    then show ?thesis by blast
  next
    case False
    then have "fst st1 = fst st" using rmatch_no_progress[OF StarStep.hyps(1)] by simp
    then show ?thesis using StarStep.IH(2)[of d] by (simp del: rx.simps)
  qed
next
  case (LazyNil a st)
  show ?case using lazy_nil_mem[of "(fst st, d)" a] by blast
next
  case (LazyStep a st st1 st2)
  obtain d1 where d1: "(fst st1, d1) \<in> set (rx a (fst st, d))" using LazyStep.IH(1) by blast
  show ?case
  proof (cases "length (fst st1) < length (fst st)")
    case True
    obtain d2 where d2: "(fst st2, d2) \<in> set (rx (StarLazy a) (fst st1, d1))"
      using LazyStep.IH(2)[of d1] by (auto simp del: rx.simps)
    have "(fst st2, d2) \<in> set (rx (StarLazy a) (fst st, d))"
      using lazy_step_mem[OF d1 _ d2] True by (simp del: rx.simps)
    then show ?thesis by blast
  next
    case False
    then have "fst st1 = fst st" using rmatch_no_progress[OF LazyStep.hyps(1)] by simp
    then show ?thesis using LazyStep.IH(2)[of d] by (simp del: rx.simps)
  qed
next
  case (Grp a s c s1 c1 n)
  obtain d1 where d1: "(s1, d1) \<in> set (rx a (s, d))" using Grp.IH[of d] by auto
  have "(s1, AList.update n (take (length s - length s1) s) d1) \<in> set (rx (Grp n a) (s, d))"
    using d1 by (simp del: rx.simps add: rx.simps(8) image_iff) force
  then show ?case by auto
next
  case (EndInput c)
  then show ?case by simp
next
  case (EndLine s c)
  then show ?case by (cases s) auto
qed


inductive_cases rmatch_SeqE: "rmatch (Seq a b) st st'"
inductive_cases rmatch_LitE: "rmatch (Lit l) st st'"
inductive_cases rmatch_ClsE: "rmatch (Cls cs) st st'"
inductive_cases rmatch_NClsE: "rmatch (NCls cs) st st'"
inductive_cases rmatch_OptE: "rmatch (Opt a) st st'"
inductive_cases rmatch_GrpE: "rmatch (Grp n a) st st'"
inductive_cases rmatch_EndLineE: "rmatch EndLine st st'"
inductive_cases rmatch_EndInputE: "rmatch EndInput st st'"

lemma rmatch_Lit_iff: "rmatch (Lit l) st st' \<longleftrightarrow> fst st = l @ fst st' \<and> snd st' = snd st"
  by (cases st; cases st') (auto elim: rmatch_LitE intro: rmatch.Lit)

lemma rmatch_Cls_iff:
  "rmatch (Cls cs) st st' \<longleftrightarrow> (\<exists>x \<in> set cs. fst st = x # fst st') \<and> snd st' = snd st"
  by (cases st; cases st') (auto elim: rmatch_ClsE intro: rmatch.Cls)

lemma rmatch_NCls_iff:
  "rmatch (NCls cs) st st' \<longleftrightarrow> (\<exists>x. x \<notin> set cs \<and> fst st = x # fst st') \<and> snd st' = snd st"
  by (cases st; cases st') (auto elim: rmatch_NClsE intro: rmatch.NCls)

lemma rmatch_Star_chars:
  assumes "rmatch r st st'" "r = Star a \<or> r = StarLazy a"
    and "\<And>u v. rmatch a u v \<Longrightarrow> (\<exists>x. P x \<and> fst u = x # fst v) \<and> snd v = snd u"
  shows "\<exists>w. fst st = w @ fst st' \<and> (\<forall>x \<in> set w. P x) \<and> snd st' = snd st"
  using assms(1,2)
proof (induction rule: rmatch.induct)
  case (StarNil a st)
  then show ?case by simp
next
  case (StarStep b st st1 st2)
  then have b: "b = a" by simp
  obtain x where x: "P x" "fst st = x # fst st1" "snd st1 = snd st"
    using assms(3)[of st st1] StarStep.hyps(1) b by auto
  obtain w where w: "fst st1 = w @ fst st2" "\<forall>x \<in> set w. P x" "snd st2 = snd st1"
    using StarStep.IH(2) b by auto
  show ?case using x w by (intro exI[of _ "x # w"]) simp
next
  case (LazyNil a st)
  then show ?case by simp
next
  case (LazyStep b st st1 st2)
  then have b: "b = a" by simp
  obtain x where x: "P x" "fst st = x # fst st1" "snd st1 = snd st"
    using assms(3)[of st st1] LazyStep.hyps(1) b by auto
  obtain w where w: "fst st1 = w @ fst st2" "\<forall>x \<in> set w. P x" "snd st2 = snd st1"
    using LazyStep.IH(2) b by auto
  show ?case using x w by (intro exI[of _ "x # w"]) simp
qed simp_all

lemma rmatch_Star_Cls:
  assumes "rmatch (Star (Cls cs)) st st'"
  shows "\<exists>w. fst st = w @ fst st' \<and> set w \<subseteq> set cs \<and> snd st' = snd st"
proof -
  have "\<exists>w. fst st = w @ fst st' \<and> (\<forall>x \<in> set w. x \<in> set cs) \<and> snd st' = snd st"
    by (rule rmatch_Star_chars[OF assms, of "Cls cs"]) (auto simp: rmatch_Cls_iff)
  then show ?thesis by blast
qed

lemma rmatch_Plus_NCls:
  assumes "rmatch (Plus (NCls cs)) st st'"
  shows "\<exists>w. fst st = w @ fst st' \<and> w \<noteq> [] \<and> set w \<inter> set cs = {} \<and> snd st' = snd st"
proof -
  obtain st1 where a: "rmatch (NCls cs) st st1" and b: "rmatch (Star (NCls cs)) st1 st'"
    using assms unfolding Plus_def by (auto elim: rmatch_SeqE)
  obtain x where x: "x \<notin> set cs" "fst st = x # fst st1" "snd st1 = snd st"
    using a by (auto simp: rmatch_NCls_iff)
  have "\<exists>w. fst st1 = w @ fst st' \<and> (\<forall>x \<in> set w. x \<notin> set cs) \<and> snd st' = snd st1"
    by (rule rmatch_Star_chars[OF b, of "NCls cs"]) (auto simp: rmatch_NCls_iff)
  then obtain w where w: "fst st1 = w @ fst st'" "\<forall>x \<in> set w. x \<notin> set cs" "snd st' = snd st1"
    by blast
  show ?thesis using x w by (intro exI[of _ "x # w"]) auto
qed

lemma rmatch_Opt_Lit:
  assumes "rmatch (Opt (Lit l)) st st'"
  shows "\<exists>q. (q = [] \<or> q = l) \<and> fst st = q @ fst st' \<and> snd st' = snd st"
  using assms by (auto elim!: rmatch_OptE simp: rmatch_Lit_iff)

lemma rmatch_EndLine_iff:
  "rmatch EndLine st st' \<longleftrightarrow> st' = st \<and> (fst st = [] \<or> hd (fst st) \<in> set lineTerminators)"
  by (cases st; cases st') (auto elim: rmatch_EndLineE intro: rmatch.EndLine)

lemma dom_update_keys: "fst ` set (AList.update k v al) = insert k (fst ` set al)"
  by (simp add: dom_update)

lemma rmatch_defines:
  "rmatch r st st' \<Longrightarrow> fst ` set (snd st) \<union> must r \<subseteq> fst ` set (snd st')"
proof (induction rule: rmatch.induct)
  case (Seq a st st1 b st2)
  then show ?case unfolding must.simps by blast
next
  case (StarStep a st st1 st2)
  then show ?case unfolding must.simps by blast
next
  case (LazyStep a st st1 st2)
  then show ?case unfolding must.simps by blast
next
  case (Grp a s c s1 c1 n)
  then show ?case unfolding must.simps snd_conv dom_update_keys by blast
qed simp_all

lemma js_match_Some:
  assumes "js_match r s = Some m"
  shows "\<exists>pre t st. s = pre @ t \<and> st \<in> set (rx (Grp 0 r) (t, [])) \<and> m = snd st"
  using assms
proof (induction s)
  case Nil
  then show ?case by (auto split: list.splits simp del: rx.simps)
next
  case (Cons x xs)
  show ?case
  proof (cases "rx (Grp 0 r) (x # xs, [])")
    case Nil
    then have "js_match r xs = Some m" using Cons.prems by (simp del: rx.simps)
    then obtain pre t st where "xs = pre @ t" "st \<in> set (rx (Grp 0 r) (t, []))" "m = snd st"
      using Cons.IH by blast
    then show ?thesis by (intro exI[of _ "x # pre"] exI[of _ t] exI[of _ st]) simp
  next
    case (Cons st sts)
    then have "m = snd st" using Cons.prems by (simp del: rx.simps)
    then show ?thesis using Cons by (intro exI[of _ "[]"] exI[of _ "x # xs"] exI[of _ st]) (simp del: rx.simps)
  qed
qed

lemma js_match_None:
  assumes "js_match r s = None" "s = pre @ t"
  shows "rx (Grp 0 r) (t, []) = []"
  using assms
proof (induction s arbitrary: pre)
  case Nil
  then show ?case by (auto split: list.splits simp del: rx.simps)
next
  case (Cons x xs)
  have e: "rx (Grp 0 r) (x # xs, []) = []" "js_match r xs = None"
    using Cons.prems(1) by (auto split: list.splits simp del: rx.simps)
  show ?case
  proof (cases pre)
    case Nil
    then show ?thesis using e(1) Cons.prems(2) by (simp del: rx.simps)
  next
    case (Cons p ps)
    then have "xs = ps @ t" using Cons.prems(2) by simp
    then show ?thesis using Cons.IH[OF e(2)] by blast
  qed
qed

lemma js_match_rmatch:
  assumes "js_match r s = Some m"
  shows "\<exists>pre t s' c'. s = pre @ t \<and> rmatch r (t, []) (s', c') \<and> (\<forall>i. 0 < i \<longrightarrow> map_of m i = map_of c' i)"
proof -
  obtain pre t st where a: "s = pre @ t" "st \<in> set (rx (Grp 0 r) (t, []))" "m = snd st"
    using js_match_Some[OF assms] by blast
  have "rmatch (Grp 0 r) (t, []) st" using a(2) by (rule rx_sound)
  then obtain s' c' where b: "rmatch r (t, []) (s', c')" "st = (s', AList.update 0 (take (length t - length s') t) c')"
    by (auto elim: rmatch_GrpE)
  have "map_of m i = map_of c' i" if "0 < i" for i
    using that a(3) b(2) by (simp add: update_conv')
  then show ?thesis using a(1) b(1) by blast
qed

lemma js_match_complete:
  assumes "rmatch r (t, c) st'"
  shows "js_match r (pre @ t) \<noteq> None"
proof
  assume n: "js_match r (pre @ t) = None"
  have "rmatch r (t, c) (fst st', snd st')" using assms by simp
  then have g: "rmatch (Grp 0 r) (t, c) (fst st', AList.update 0 (take (length t - length (fst st')) t) (snd st'))"
    by (rule rmatch.Grp)
  have "\<exists>d'. (fst (fst st', AList.update 0 (take (length t - length (fst st')) t) (snd st')), d')
      \<in> set (rx (Grp 0 r) (fst (t, c), []))"
    using g by (rule rx_complete)
  then obtain d' where "(fst st', d') \<in> set (rx (Grp 0 r) (t, []))"
    by (auto simp del: rx.simps)
  moreover have "rx (Grp 0 r) (t, []) = []" using n by (rule js_match_None) simp
  ultimately show False by (simp del: rx.simps)
qed

lemma js_match_defines:
  assumes "js_match r s = Some m" "i \<in> must r"
  shows "map_of m i \<noteq> None"
proof -
  obtain pre t st where a: "s = pre @ t" "st \<in> set (rx (Grp 0 r) (t, []))" "m = snd st"
    using js_match_Some[OF assms(1)] by blast
  have "rmatch (Grp 0 r) (t, []) st" using a(2) by (rule rx_sound)
  then have "must (Grp 0 r) \<subseteq> fst ` set (snd st)" using rmatch_defines by fastforce
  then have "i \<in> fst ` set m" using assms(2) a(3) by auto
  then show ?thesis by (simp add: map_of_eq_None_iff)
qed

lemma must_patterns:
  "must arpRe = {1, 2}" "must ssidRe = {1, 2}" "must clientRe = {1, 2, 3}" "must numRe = {1}"
  "must fdbRe = {1, 2}" "must qfdbRe = {1, 2}" "must bpRe = {1, 2}" "must ifNameRe = {1, 2}"
  "must sysDescrRe = {1}"
  by (auto simp: arpRe_def ssidRe_def clientRe_def numRe_def fdbRe_def qfdbRe_def bpRe_def
      ifNameRe_def sysDescrRe_def Plus_def PlusLazy_def Dot_def)

text \<open>What a match of the frequent parts of the patterns consumes and captures.\<close>

lemma rmatch_Plus_Cls:
  assumes "rmatch (Plus (Cls cs)) st st'"
  shows "\<exists>w. fst st = w @ fst st' \<and> w \<noteq> [] \<and> set w \<subseteq> set cs \<and> snd st' = snd st"
proof -
  obtain st1 where a: "rmatch (Cls cs) st st1" and b: "rmatch (Star (Cls cs)) st1 st'"
    using assms unfolding Plus_def by (auto elim: rmatch_SeqE)
  obtain x where x: "x \<in> set cs" "fst st = x # fst st1" "snd st1 = snd st"
    using a by (auto simp: rmatch_Cls_iff)
  obtain w where w: "fst st1 = w @ fst st'" "set w \<subseteq> set cs" "snd st' = snd st1"
    using rmatch_Star_Cls[OF b] by blast
  show ?thesis using x w by (intro exI[of _ "x # w"]) auto
qed

lemma rmatch_Grp_Plus_Cls:
  assumes "rmatch (Grp n (Plus (Cls cs))) st st'"
  shows "\<exists>w. fst st = w @ fst st' \<and> w \<noteq> [] \<and> set w \<subseteq> set cs \<and>
           snd st' = AList.update n w (snd st)"
proof -
  obtain s1 c1 where g: "rmatch (Plus (Cls cs)) (fst st, snd st) (s1, c1)"
      "st' = (s1, AList.update n (take (length (fst st) - length s1) (fst st)) c1)"
    using assms by (cases st) (auto elim: rmatch_GrpE)
  obtain w where w: "fst st = w @ s1" "w \<noteq> []" "set w \<subseteq> set cs" "c1 = snd st"
    using rmatch_Plus_Cls[OF g(1)] by auto
  show ?thesis using g(2) w by (intro exI[of _ w]) simp
qed

lemma rmatch_Grp_Star_Dot:
  assumes "rmatch (Grp n (Star Dot)) st st'"
  shows "\<exists>w. fst st = w @ fst st' \<and> set w \<inter> set lineTerminators = {} \<and>
           snd st' = AList.update n w (snd st)"
proof -
  obtain s1 c1 where g: "rmatch (Star (NCls lineTerminators)) (fst st, snd st) (s1, c1)"
      "st' = (s1, AList.update n (take (length (fst st) - length s1) (fst st)) c1)"
    using assms unfolding Dot_def by (cases st) (auto elim: rmatch_GrpE)
  have "\<exists>w. fst (fst st, snd st) = w @ fst (s1, c1) \<and> (\<forall>x \<in> set w. x \<notin> set lineTerminators)
      \<and> snd (s1, c1) = snd (fst st, snd st)"
    by (rule rmatch_Star_chars[OF g(1), of "NCls lineTerminators"]) (auto simp: rmatch_NCls_iff)
  then obtain w where w: "fst st = w @ s1" "\<forall>x \<in> set w. x \<notin> set lineTerminators" "c1 = snd st"
    by auto
  show ?thesis using g(2) w by (intro exI[of _ w]) auto
qed

section \<open>The connectivity test\<close>

lemma sysDescrRe_shape:
  assumes "rmatch sysDescrRe (t, c) (s', c')"
  shows "\<exists>w1 q1 body q2 w2.
        t = ''STRING:'' @ w1 @ q1 @ body @ q2 @ w2 @ s' \<and>
        set w1 \<subseteq> set whitespace \<and> (q1 = [] \<or> q1 = [CHR 0x22]) \<and>
        body \<noteq> [] \<and> set body \<inter> {CHR 0x0A, CHR 0x22} = {} \<and>
        (q2 = [] \<or> q2 = [CHR 0x22]) \<and> set w2 \<subseteq> set whitespace \<and>
        (s' = [] \<or> hd s' \<in> set lineTerminators) \<and>
        map_of c' 1 = Some body"
proof -
  from assms obtain st1 st2 st3 st4 st5 st6
    where m1: "rmatch (Lit ''STRING:'') (t, c) st1"
      and m2: "rmatch (Star (Cls whitespace)) st1 st2"
      and m3: "rmatch (Opt (Lit [CHR 0x22])) st2 st3"
      and m4: "rmatch (Grp 1 (Plus (NCls [CHR 0x0A, CHR 0x22]))) st3 st4"
      and m5: "rmatch (Opt (Lit [CHR 0x22])) st4 st5"
      and m6: "rmatch (Star (Cls whitespace)) st5 st6"
      and m7: "rmatch EndLine st6 (s', c')"
    unfolding sysDescrRe_def seqs.simps by (elim rmatch_SeqE) blast
  have e1: "t = ''STRING:'' @ fst st1" "snd st1 = c" using m1 by (simp_all add: rmatch_Lit_iff)
  obtain w1 where e2: "fst st1 = w1 @ fst st2" "set w1 \<subseteq> set whitespace" "snd st2 = snd st1"
    using rmatch_Star_Cls[OF m2] by blast
  obtain q1 where e3: "q1 = [] \<or> q1 = [CHR 0x22]" "fst st2 = q1 @ fst st3" "snd st3 = snd st2"
    using rmatch_Opt_Lit[OF m3] by blast
  obtain s4 c4 where g: "rmatch (Plus (NCls [CHR 0x0A, CHR 0x22])) (fst st3, snd st3) (s4, c4)"
      "st4 = (s4, AList.update 1 (take (length (fst st3) - length s4) (fst st3)) c4)"
    using m4 by (cases st3) (auto elim: rmatch_GrpE)
  obtain body where e4: "fst st3 = body @ s4" "body \<noteq> []" "set body \<inter> set [CHR 0x0A, CHR 0x22] = {}"
    using rmatch_Plus_NCls[OF g(1)] by auto
  have cap: "map_of (snd st4) 1 = Some body"
    using g(2) e4(1) by (simp add: update_conv')
  obtain q2 where e5: "q2 = [] \<or> q2 = [CHR 0x22]" "fst st4 = q2 @ fst st5" "snd st5 = snd st4"
    using rmatch_Opt_Lit[OF m5] by blast
  obtain w2 where e6: "fst st5 = w2 @ fst st6" "set w2 \<subseteq> set whitespace" "snd st6 = snd st5"
    using rmatch_Star_Cls[OF m6] by blast
  have e7: "st6 = (s', c')" "s' = [] \<or> hd s' \<in> set lineTerminators"
    using m7 by (auto simp: rmatch_EndLine_iff)
  have "t = ''STRING:'' @ w1 @ q1 @ body @ q2 @ w2 @ s'"
    using e1(1) e2(1) e3(2) e4(1) g(2) e5(2) e6(1) e7(1) by simp
  moreover have "map_of c' 1 = Some body" using cap e5(3) e6(3) e7(1) by simp
  ultimately show ?thesis using e2(2) e3(1) e4(2,3) e5(1) e6(2) e7(2) by auto
qed

lemma rmatch_Star_Cls_intro:
  "set w \<subseteq> set cs \<Longrightarrow> rmatch (Star (Cls cs)) (w @ s, c) (s, c)"
proof (induction w)
  case Nil
  then show ?case by (simp add: rmatch.StarNil)
next
  case (Cons x w)
  have "rmatch (Cls cs) (x # w @ s, c) (w @ s, c)" using Cons.prems by (simp add: rmatch.Cls)
  moreover have "rmatch (Star (Cls cs)) (w @ s, c) (s, c)" using Cons by simp
  ultimately show ?case using rmatch.StarStep by fastforce
qed

lemma rmatch_Star_NCls_intro:
  "set w \<inter> set cs = {} \<Longrightarrow> rmatch (Star (NCls cs)) (w @ s, c) (s, c)"
proof (induction w)
  case Nil
  then show ?case by (simp add: rmatch.StarNil)
next
  case (Cons x w)
  have "rmatch (NCls cs) (x # w @ s, c) (w @ s, c)" using Cons.prems by (simp add: rmatch.NCls)
  moreover have "rmatch (Star (NCls cs)) (w @ s, c) (s, c)" using Cons by simp
  ultimately show ?case using rmatch.StarStep by fastforce
qed

lemma rmatch_Plus_NCls_intro:
  assumes "w \<noteq> []" "set w \<inter> set cs = {}"
  shows "rmatch (Plus (NCls cs)) (w @ s, c) (s, c)"
proof -
  obtain x w' where w: "w = x # w'" using assms(1) by (cases w) auto
  have "rmatch (NCls cs) (x # w' @ s, c) (w' @ s, c)" using assms(2) w by (simp add: rmatch.NCls)
  moreover have "rmatch (Star (NCls cs)) (w' @ s, c) (s, c)"
    using assms(2) w by (intro rmatch_Star_NCls_intro) auto
  ultimately show ?thesis unfolding Plus_def w using rmatch.Seq by fastforce
qed

lemma rmatch_Opt_Lit_intro:
  "q = [] \<or> q = l \<Longrightarrow> rmatch (Opt (Lit l)) (q @ s, c) (s, c)"
  by (auto intro: rmatch.OptNone rmatch.OptSome rmatch.Lit)

lemma sysDescrRe_intro:
  assumes "set w1 \<subseteq> set whitespace" "q1 = [] \<or> q1 = [CHR 0x22]"
    "body \<noteq> []" "set body \<inter> {CHR 0x0A, CHR 0x22} = {}"
    "q2 = [] \<or> q2 = [CHR 0x22]" "set w2 \<subseteq> set whitespace"
    "post = [] \<or> hd post \<in> set lineTerminators"
  shows "\<exists>c'. rmatch sysDescrRe (''STRING:'' @ w1 @ q1 @ body @ q2 @ w2 @ post, c) (post, c')"
proof -
  let ?t5 = "w2 @ post" let ?t4 = "q2 @ ?t5" let ?t3 = "body @ ?t4" let ?t2 = "q1 @ ?t3" let ?t1 = "w1 @ ?t2"
  let ?c' = "AList.update 1 (take (length ?t3 - length ?t4) ?t3) c"
  have m1: "rmatch (Lit ''STRING:'') (''STRING:'' @ ?t1, c) (?t1, c)" by (rule rmatch.Lit)
  have m2: "rmatch (Star (Cls whitespace)) (?t1, c) (?t2, c)" using assms(1) by (rule rmatch_Star_Cls_intro)
  have m3: "rmatch (Opt (Lit [CHR 0x22])) (?t2, c) (?t3, c)" using assms(2) by (rule rmatch_Opt_Lit_intro)
  have "rmatch (Plus (NCls [CHR 0x0A, CHR 0x22])) (?t3, c) (?t4, c)"
    using assms(3,4) by (intro rmatch_Plus_NCls_intro) auto
  then have m4: "rmatch (Grp 1 (Plus (NCls [CHR 0x0A, CHR 0x22]))) (?t3, c) (?t4, ?c')"
    by (rule rmatch.Grp)
  have m5: "rmatch (Opt (Lit [CHR 0x22])) (?t4, ?c') (?t5, ?c')" using assms(5) by (rule rmatch_Opt_Lit_intro)
  have m6: "rmatch (Star (Cls whitespace)) (?t5, ?c') (post, ?c')" using assms(6) by (rule rmatch_Star_Cls_intro)
  have m7: "rmatch EndLine (post, ?c') (post, ?c')" using assms(7) by (rule rmatch.EndLine)
  have "rmatch sysDescrRe (''STRING:'' @ ?t1, c) (post, ?c')"
    unfolding sysDescrRe_def seqs.simps
    by (rule rmatch.Seq[OF m1 rmatch.Seq[OF m2 rmatch.Seq[OF m3 rmatch.Seq[OF m4 rmatch.Seq[OF m5 rmatch.Seq[OF m6 m7]]]]]])
  then show ?thesis by blast
qed

text \<open>
  C2, as the code has it. The test answers \<open>ok\<close> exactly when a STRING value stands in
  the walk text; its quotes are optional. The description is then such a value,
  trimmed. Otherwise the description is the first 200 characters of the trimmed text,
  or \<^verbatim>\<open>Keine Antwort\<close> when the trimmed text is empty.
\<close>

theorem testResult_spec:
  "(ok (testResult txt) \<longleftrightarrow> (\<exists>body. sysDescrValue txt body)) \<and>
   (ok (testResult txt) \<longrightarrow>
      (\<exists>body. sysDescrValue txt body \<and> sysDescr (testResult txt) = js_trim body)) \<and>
   (\<not> ok (testResult txt) \<longrightarrow>
      sysDescr (testResult txt) =
        (if js_trim txt = [] then ''Keine Antwort'' else take 200 (js_trim txt)))"
proof -
  have a: "\<exists>body. sysDescrValue txt body \<and> js_trim (grp m 1) = js_trim body"
    if m: "js_match sysDescrRe txt = Some m" for m
  proof -
    obtain pre t s' c' where d: "txt = pre @ t" "rmatch sysDescrRe (t, []) (s', c')"
        "\<forall>i. 0 < i \<longrightarrow> map_of m i = map_of c' i"
      using js_match_rmatch[OF m] by blast
    obtain w1 q1 body q2 w2 where s: "t = ''STRING:'' @ w1 @ q1 @ body @ q2 @ w2 @ s'"
        "set w1 \<subseteq> set whitespace" "q1 = [] \<or> q1 = [CHR 0x22]"
        "body \<noteq> []" "set body \<inter> {CHR 0x0A, CHR 0x22} = {}"
        "q2 = [] \<or> q2 = [CHR 0x22]" "set w2 \<subseteq> set whitespace"
        "s' = [] \<or> hd s' \<in> set lineTerminators" "map_of c' 1 = Some body"
      using sysDescrRe_shape[OF d(2)] by blast
    have "grp m 1 = body" using d(3) s(9) by (simp add: grp_def)
    moreover have "sysDescrValue txt body"
      unfolding sysDescrValue_def using d(1) s(1-8) by blast
    ultimately show ?thesis by blast
  qed
  have b: "js_match sysDescrRe txt \<noteq> None" if v: "sysDescrValue txt body" for body
  proof -
    obtain pre w1 q1 q2 w2 post where s: "txt = pre @ ''STRING:'' @ w1 @ q1 @ body @ q2 @ w2 @ post"
        "set w1 \<subseteq> set whitespace" "q1 = [] \<or> q1 = [CHR 0x22]"
        "body \<noteq> []" "set body \<inter> {CHR 0x0A, CHR 0x22} = {}"
        "q2 = [] \<or> q2 = [CHR 0x22]" "set w2 \<subseteq> set whitespace"
        "post = [] \<or> hd post \<in> set lineTerminators"
      using v unfolding sysDescrValue_def by blast
    obtain c' where "rmatch sysDescrRe (''STRING:'' @ w1 @ q1 @ body @ q2 @ w2 @ post, []) (post, c')"
      using sysDescrRe_intro[OF s(2-8), of "[]"] by blast
    then show ?thesis unfolding s(1) by (rule js_match_complete)
  qed
  show ?thesis
  proof (cases "js_match sysDescrRe txt")
    case None
    then have "\<not> (\<exists>body. sysDescrValue txt body)" using b by blast
    then show ?thesis using None by (simp add: testResult_def truthyStr_def)
  next
    case (Some m)
    then show ?thesis using a[OF Some] by (auto simp: testResult_def)
  qed
qed


theorem testResult_spec_witness:
  \<open>ok (testResult ''.1.3.6.1.2.1.1.1.0 = STRING: "Device XYZ"'') \<and>
   (\<exists>body. sysDescrValue ''.1.3.6.1.2.1.1.1.0 = STRING: "Device XYZ"'' body \<and> ''Device XYZ'' = js_trim body) \<and>
   \<not> ok (testResult ''  Timeout: No Response from 10.0.0.1  '') \<and>
   sysDescr (testResult ''  Timeout: No Response from 10.0.0.1  '') = ''Timeout: No Response from 10.0.0.1''\<close>
proof -
  have r1: \<open>testResult ''.1.3.6.1.2.1.1.1.0 = STRING: "Device XYZ"''
      = \<lparr>ok = True, sysDescr = ''Device XYZ''\<rparr>\<close>
    by code_simp
  have r2: "testResult ''  Timeout: No Response from 10.0.0.1  ''
      = \<lparr>ok = False, sysDescr = ''Timeout: No Response from 10.0.0.1''\<rparr>"
    by code_simp
  have t2: "js_trim ''  Timeout: No Response from 10.0.0.1  '' = ''Timeout: No Response from 10.0.0.1''"
    by (simp add: js_trim_def whitespace_def)
  show ?thesis
    using testResult_spec[of \<open>''.1.3.6.1.2.1.1.1.0 = STRING: "Device XYZ"''\<close>]
      testResult_spec[of "''  Timeout: No Response from 10.0.0.1  ''"]
    unfolding r1 r2 t2
    by simp
qed

text \<open>
  C2 as stated fails in three places: the placeholder is \<^verbatim>\<open>Keine Antwort\<close>, a value
  without quotes is accepted, and the text is trimmed before it is cut.
\<close>

theorem testResult_counterexample:
  "testResult [] = \<lparr>ok = False, sysDescr = ''Keine Antwort''\<rparr> \<and>
   testResult ''.1.3.6.1.2.1.1.1.0 = STRING: Device XYZ'' = \<lparr>ok = True, sysDescr = ''Device XYZ''\<rparr> \<and>
   testResult '' Timeout '' = \<lparr>ok = False, sysDescr = ''Timeout''\<rparr>"
  by code_simp

section \<open>Sorting\<close>

lemma set_insertBy: "set (insertBy cmp x xs) = insert x (set xs)"
  by (induction xs) auto

lemma length_insertBy: "length (insertBy cmp x xs) = Suc (length xs)"
  by (induction xs) auto

lemma set_js_sort: "set (js_sort cmp xs) = set xs"
  by (induction xs) (auto simp: js_sort_def set_insertBy)

lemma length_js_sort: "length (js_sort cmp xs) = length xs"
  by (induction xs) (auto simp: js_sort_def length_insertBy)

lemma distinct_map_insertBy:
  "distinct (map f (insertBy cmp x xs)) \<longleftrightarrow> f x \<notin> f ` set xs \<and> distinct (map f xs)"
  by (induction xs) (auto simp: set_insertBy)

lemma distinct_map_js_sort: "distinct (map f (js_sort cmp xs)) \<longleftrightarrow> distinct (map f xs)"
proof (induction xs)
  case Nil
  then show ?case by (simp add: js_sort_def)
next
  case (Cons x xs)
  have "js_sort cmp (x # xs) = insertBy cmp x (js_sort cmp xs)" by (simp add: js_sort_def)
  then show ?case using Cons by (simp add: distinct_map_insertBy set_js_sort)
qed

lemma filter_insertBy_length:
  "length (filter P (insertBy cmp x xs)) = length (filter P (x # xs))"
  by (induction xs) auto

lemma filter_js_sort_length: "length (filter P (js_sort cmp xs)) = length (filter P xs)"
proof (induction xs)
  case Nil
  then show ?case by (simp add: js_sort_def)
next
  case (Cons x xs)
  have "js_sort cmp (x # xs) = insertBy cmp x (js_sort cmp xs)" by (simp add: js_sort_def)
  then show ?case using Cons by (simp add: filter_insertBy_length)
qed

lemma sorted_insertBy:
  assumes "consistent cmp" "sorted_wrt (\<lambda>a b. cmp a b \<le> 0) xs"
  shows "sorted_wrt (\<lambda>a b. cmp a b \<le> 0) (insertBy cmp x xs)"
  using assms(2)
proof (induction xs)
  case Nil
  then show ?case by simp
next
  case (Cons y ys)
  have tot: "\<And>a b. cmp a b \<le> 0 \<or> cmp b a \<le> 0"
    and tr: "\<And>a b c. cmp a b \<le> 0 \<Longrightarrow> cmp b c \<le> 0 \<Longrightarrow> cmp a c \<le> 0"
    using assms(1) unfolding consistent_def by blast+
  show ?case
  proof (cases "cmp x y \<le> 0")
    case True
    then have "\<forall>z \<in> set ys. cmp x z \<le> 0" using Cons.prems tr by auto
    then show ?thesis using True Cons.prems by simp
  next
    case False
    then have yx: "cmp y x \<le> 0" using tot[of x y] by simp
    have "sorted_wrt (\<lambda>a b. cmp a b \<le> 0) (insertBy cmp x ys)"
      using Cons by simp
    then show ?thesis using False yx Cons.prems by (auto simp: set_insertBy)
  qed
qed

lemma sorted_js_sort:
  "consistent cmp \<Longrightarrow> sorted_wrt (\<lambda>a b. cmp a b \<le> 0) (js_sort cmp xs)"
proof (induction xs)
  case Nil
  then show ?case by (simp add: js_sort_def)
next
  case (Cons x xs)
  have "js_sort cmp (x # xs) = insertBy cmp x (js_sort cmp xs)" by (simp add: js_sort_def)
  then show ?case using Cons sorted_insertBy by metis
qed

lemma consistent_on_key: "consistent cmp \<Longrightarrow> consistent (\<lambda>a b. cmp (f a) (f b))"
  unfolding consistent_def by blast

lemma sorted_sortByPortName:
  "consistent cmp \<Longrightarrow>
     sorted_wrt (\<lambda>a b. cmp (portName a) (portName b) \<le> 0) (sortByPortName cmp es)"
  unfolding sortByPortName_def
  using sorted_js_sort[OF consistent_on_key[of cmp portName]] by simp

lemma set_sortByPortName: "set (sortByPortName cmp es) = set es"
  by (simp add: sortByPortName_def set_js_sort)

lemma length_sortByPortName: "length (sortByPortName cmp es) = length es"
  by (simp add: sortByPortName_def length_js_sort)

lemma consistent_numericCollator: "consistent numericCollator"
  unfolding consistent_def numericCollator_def by (auto split: if_splits)

section \<open>Results of the resolver\<close>

lemma bridgeEntry_ip: "ip (bridgeEntry bpToIf ifNames macToIp e) \<noteq> Some []"
  by (simp add: bridgeEntry_def Let_def truthyStr_def split: option.splits)

lemma wlanEntry_ip: "ip (wlanEntry macToSsid macToIp c) \<noteq> Some []"
  by (simp add: wlanEntry_def Let_def truthyStr_def split: option.splits)

lemma countWithIp_nonnull:
  assumes "\<forall>e \<in> set es. ip e \<noteq> Some []"
  shows "countWithIp (tableResult src es) = length (filter (\<lambda>e. ip e \<noteq> None) es)"
proof -
  have "filter (\<lambda>e. case ip e of None \<Rightarrow> False | Some a \<Rightarrow> truthyStr a) es = filter (\<lambda>e. ip e \<noteq> None) es"
    using assms by (intro filter_cong) (auto simp: truthyStr_def split: option.splits)
  then show ?thesis by (simp add: tableResult_def)
qed

lemma bridge_ips: "\<forall>e \<in> set (bridgeEntries cmp fdbOut qfdbOut bpOut ifNameOut arpOut). ip e \<noteq> Some []"
  by (auto simp: bridgeEntries_def Let_def set_sortByPortName bridgeEntry_ip)

lemma wlan_ips: "\<forall>e \<in> set (entries (wlanClientTable cmp clientOut ssidOut arpOut)). ip e \<noteq> Some []"
  by (auto simp: wlanClientTable_def tableResult_def Let_def set_sortByPortName wlanEntry_ip)

lemma tableResult_shape:
  assumes "\<forall>e \<in> set es. ip e \<noteq> Some []"
    and "sorted_wrt (\<lambda>a b. cmp (portName a) (portName b) \<le> 0) es"
  shows "shaped cmp (tableResult src es)"
  unfolding shaped_def
  using countWithIp_nonnull[OF assms(1), of src] assms(2)
  by (simp add: tableResult_def)

lemma wlanClientTable_shape:
  assumes "consistent cmp"
  shows "shaped cmp (wlanClientTable cmp clientOut ssidOut arpOut)"
  unfolding wlanClientTable_def Let_def
  by (rule tableResult_shape)
     (auto simp: set_sortByPortName wlanEntry_ip sorted_sortByPortName[OF assms])

lemma bridge_shape:
  assumes "consistent cmp"
  shows "shaped cmp (tableResult ''bridge'' (bridgeEntries cmp fdbOut qfdbOut bpOut ifNameOut arpOut))"
  by (rule tableResult_shape)
     (auto simp: bridgeEntries_def Let_def set_sortByPortName bridgeEntry_ip sorted_sortByPortName[OF assms])

lemma runSnmpWalk_eq:
  "runSnmpWalk sys host community version oid spawned =
     (settle (sys spawned (walkCommand host community version oid)),
      spawned @ [walkCommand host community version oid])"
  by (simp add: runSnmpWalk_def Let_def)

lemma both_Resolved_iff: "both p q = Resolved x \<longleftrightarrow> p = Resolved (fst x) \<and> q = Resolved (snd x)"
  by (cases p; cases q; cases x) (auto simp: both_def)

lemma snmpLancomWlanClients_Resolved:
  assumes "snmpLancomWlanClients sys cmp host community version spawned = (Resolved r, spawned')"
  shows "\<exists>clientOut ssidOut arpOut.
           responses sys spawned (wlanCommands host community version) = [Resolved clientOut, Resolved ssidOut, Resolved arpOut]
           \<and> r = wlanClientTable cmp clientOut ssidOut arpOut
           \<and> spawned' = spawned @ wlanCommands host community version"
  using assms
  unfolding snmpLancomWlanClients_def runSnmpWalk_eq Let_def prod.case wlanCommands_def
  by (auto split: promise.splits simp: both_Resolved_iff)

lemma snmpLancomWlanClients_of_responses:
  assumes "responses sys spawned (wlanCommands host community version) = [Resolved clientOut, Resolved ssidOut, Resolved arpOut]"
  shows "snmpLancomWlanClients sys cmp host community version spawned
      = (Resolved (wlanClientTable cmp clientOut ssidOut arpOut), spawned @ wlanCommands host community version)"
  using assms
  unfolding snmpLancomWlanClients_def runSnmpWalk_eq Let_def prod.case wlanCommands_def
  by (simp add: both_def)

lemma snmpMacTable_of_responses:
  assumes "responses sys spawned (bridgeCommands host community version)
      = [Resolved fdbOut, Resolved qfdbOut, Resolved bpOut, Resolved ifNameOut, Resolved arpOut]"
  shows "snmpMacTable sys cmp host community version spawned =
     (if bridgeEntries cmp fdbOut qfdbOut bpOut ifNameOut arpOut = []
      then snmpLancomWlanClients sys cmp host community version (spawned @ bridgeCommands host community version)
      else (Resolved (tableResult ''bridge'' (bridgeEntries cmp fdbOut qfdbOut bpOut ifNameOut arpOut)),
            spawned @ bridgeCommands host community version))"
  using assms
  unfolding snmpMacTable_def runSnmpWalk_eq Let_def prod.case bridgeCommands_def
  by (simp add: both_def)

lemma snmpMacTable_Resolved:
  assumes "snmpMacTable sys cmp host community version spawned = (Resolved r, spawned')"
  shows "\<exists>fdbOut qfdbOut bpOut ifNameOut arpOut.
           responses sys spawned (bridgeCommands host community version)
             = [Resolved fdbOut, Resolved qfdbOut, Resolved bpOut, Resolved ifNameOut, Resolved arpOut]"
proof -
  obtain x where b: "both (settle (sys spawned (walkCommand host community version ''1.3.6.1.2.1.17.4.3.1.2'')))
     (both (settle (sys (spawned @ [walkCommand host community version ''1.3.6.1.2.1.17.4.3.1.2''])
               (walkCommand host community version ''1.3.6.1.2.1.17.7.1.2.2.1.2'')))
      (both (settle (sys (spawned @ [walkCommand host community version ''1.3.6.1.2.1.17.4.3.1.2'',
                 walkCommand host community version ''1.3.6.1.2.1.17.7.1.2.2.1.2''])
               (walkCommand host community version ''1.3.6.1.2.1.17.1.4.1.2'')))
       (both (settle (sys (spawned @ [walkCommand host community version ''1.3.6.1.2.1.17.4.3.1.2'',
                 walkCommand host community version ''1.3.6.1.2.1.17.7.1.2.2.1.2'',
                 walkCommand host community version ''1.3.6.1.2.1.17.1.4.1.2''])
               (walkCommand host community version ''1.3.6.1.2.1.31.1.1.1.1'')))
        (settle (sys (spawned @ [walkCommand host community version ''1.3.6.1.2.1.17.4.3.1.2'',
                 walkCommand host community version ''1.3.6.1.2.1.17.7.1.2.2.1.2'',
                 walkCommand host community version ''1.3.6.1.2.1.17.1.4.1.2'',
                 walkCommand host community version ''1.3.6.1.2.1.31.1.1.1.1''])
               (walkCommand host community version ''1.3.6.1.2.1.4.22.1.2'')))))) = Resolved x"
    using assms
    unfolding snmpMacTable_def runSnmpWalk_eq Let_def prod.case
    by (auto split: promise.splits)
  then show ?thesis
    unfolding bridgeCommands_def
    by (auto simp: both_Resolved_iff)
qed


section \<open>The bridge forwarding table\<close>

text \<open>
  The classic table is taken when it has an entry, the Q-Bridge table otherwise. In the
  Q-Bridge table a port that is stored and not 0 stays: later lines for its MAC are
  dropped. The example of the specification, one MAC in VLAN 10 on port 3 and in VLAN
  20 on port 7, keeps port 3.
\<close>

lemma qfdbLine_keeps:
  assumes "map_of macToBp a = Some p" "truthyNum p"
  shows "map_of (qfdbLine macToBp line) a = Some p"
proof (cases "js_match qfdbRe line")
  case None
  then show ?thesis using assms by (simp add: qfdbLine_def)
next
  case m: (Some m)
  show ?thesis
  proof (cases "macFromDecOid (grp m 1)")
    case None
    then show ?thesis using assms m by (simp add: qfdbLine_def)
  next
    case (Some addr)
    show ?thesis
    proof (cases "addr = a")
      case True
      then show ?thesis using assms m Some by (simp add: qfdbLine_def)
    next
      case False
      then show ?thesis using assms m Some by (simp add: qfdbLine_def update_conv')
    qed
  qed
qed

lemma qfdb_first_nonzero_kept:
  "map_of macToBp a = Some p \<Longrightarrow> truthyNum p \<Longrightarrow> map_of (foldl qfdbLine macToBp ls) a = Some p"
  by (induction ls arbitrary: macToBp) (simp_all add: qfdbLine_keeps)

lemma parseMacToBp_fallback:
  "parseMacToBp fdbOut qfdbOut =
     (if foldl fdbLine [] (js_lines fdbOut) = [] then foldl qfdbLine [] (js_lines qfdbOut)
      else foldl fdbLine [] (js_lines fdbOut))"
  by (simp add: parseMacToBp_def Let_def)

lemma qbridge_example:
  "parseMacToBp []
     ''.1.3.6.1.2.1.17.7.1.2.2.1.2.10.170.187.204.221.238.1 = INTEGER: 3\<newline>.1.3.6.1.2.1.17.7.1.2.2.1.2.20.170.187.204.221.238.1 = INTEGER: 7\<newline>''
   = [(''aa:bb:cc:dd:ee:01'', Num 3)]"
  by code_simp

text \<open>
  A line that the Q-Bridge pattern matches holds the root, the VLAN id as one numeral,
  a dot, and then the suffix that is decoded: the VLAN id is not part of it.
\<close>

lemma qfdbRe_shape:
  assumes "rmatch qfdbRe (t, c) (s', c')"
  shows "\<exists>vlan suffix w1 w2 w3 port.
        t = ''17.7.1.2.2.1.2.'' @ vlan @ ''.'' @ suffix @ w1 @ ''='' @ w2 @ ''INTEGER:'' @ w3 @ port @ s' \<and>
        vlan \<noteq> [] \<and> set vlan \<subseteq> set digit \<and>
        suffix \<noteq> [] \<and> set suffix \<subseteq> set (digit @ ''.'') \<and>
        set w1 \<subseteq> set whitespace \<and> set w2 \<subseteq> set whitespace \<and> set w3 \<subseteq> set whitespace \<and>
        port \<noteq> [] \<and> set port \<subseteq> set digit \<and>
        map_of c' 1 = Some suffix \<and> map_of c' 2 = Some port"
proof -
  from assms obtain st1 st2 st3 st4 st5 st6 st7 st8 st9
    where m1: "rmatch (Lit ''17.7.1.2.2.1.2.'') (t, c) st1"
      and m2: "rmatch (Plus (Cls digit)) st1 st2"
      and m3: "rmatch (Lit ''.'') st2 st3"
      and m4: "rmatch (Grp 1 (Plus (Cls (digit @ ''.'')))) st3 st4"
      and m5: "rmatch (Star (Cls whitespace)) st4 st5"
      and m6: "rmatch (Lit ''='') st5 st6"
      and m7: "rmatch (Star (Cls whitespace)) st6 st7"
      and m8: "rmatch (Lit ''INTEGER:'') st7 st8"
      and m9: "rmatch (Star (Cls whitespace)) st8 st9"
      and m10: "rmatch (Grp 2 (Plus (Cls digit))) st9 (s', c')"
    unfolding qfdbRe_def seqs.simps by (elim rmatch_SeqE) blast
  have e1: "t = ''17.7.1.2.2.1.2.'' @ fst st1" "snd st1 = c" using m1 by (simp_all add: rmatch_Lit_iff)
  obtain vlan where e2: "fst st1 = vlan @ fst st2" "vlan \<noteq> []" "set vlan \<subseteq> set digit" "snd st2 = snd st1"
    using rmatch_Plus_Cls[OF m2] by blast
  have e3: "fst st2 = ''.'' @ fst st3" "snd st3 = snd st2" using m3 by (simp_all add: rmatch_Lit_iff)
  obtain suffix where e4: "fst st3 = suffix @ fst st4" "suffix \<noteq> []" "set suffix \<subseteq> set (digit @ ''.'')"
      "snd st4 = AList.update 1 suffix (snd st3)"
    using rmatch_Grp_Plus_Cls[OF m4] by blast
  obtain w1 where e5: "fst st4 = w1 @ fst st5" "set w1 \<subseteq> set whitespace" "snd st5 = snd st4"
    using rmatch_Star_Cls[OF m5] by blast
  have e6: "fst st5 = ''='' @ fst st6" "snd st6 = snd st5" using m6 by (simp_all add: rmatch_Lit_iff)
  obtain w2 where e7: "fst st6 = w2 @ fst st7" "set w2 \<subseteq> set whitespace" "snd st7 = snd st6"
    using rmatch_Star_Cls[OF m7] by blast
  have e8: "fst st7 = ''INTEGER:'' @ fst st8" "snd st8 = snd st7" using m8 by (simp_all add: rmatch_Lit_iff)
  obtain w3 where e9: "fst st8 = w3 @ fst st9" "set w3 \<subseteq> set whitespace" "snd st9 = snd st8"
    using rmatch_Star_Cls[OF m9] by blast
  obtain port where e10: "fst st9 = port @ s'" "port \<noteq> []" "set port \<subseteq> set digit"
      "c' = AList.update 2 port (snd st9)"
    using rmatch_Grp_Plus_Cls[OF m10] by auto
  have caps: "c' = AList.update 2 port (AList.update 1 suffix c)"
    using e10(4) e9(3) e8(2) e7(3) e6(2) e5(3) e4(4) e3(2) e2(4) e1(2) by simp
  have "t = ''17.7.1.2.2.1.2.'' @ vlan @ ''.'' @ suffix @ w1 @ ''='' @ w2 @ ''INTEGER:'' @ w3 @ port @ s'"
    using e1(1) e2(1) e3(1) e4(1) e5(1) e6(1) e7(1) e8(1) e9(1) e10(1) by simp
  moreover have "map_of c' 1 = Some suffix \<and> map_of c' 2 = Some port"
    unfolding caps by (simp add: update_conv')
  ultimately show ?thesis using e2(2,3) e4(2,3) e5(2) e7(2) e9(2) e10(2,3) by blast
qed

lemma qfdb_vlan_discarded:
  assumes "js_match qfdbRe line = Some m"
  shows "\<exists>pre vlan rest.
        line = pre @ ''17.7.1.2.2.1.2.'' @ vlan @ ''.'' @ grp m 1 @ rest \<and>
        vlan \<noteq> [] \<and> set vlan \<subseteq> set digit \<and>
        grp m 1 \<noteq> [] \<and> set (grp m 1) \<subseteq> set (digit @ ''.'') \<and>
        grp m 2 \<noteq> [] \<and> set (grp m 2) \<subseteq> set digit"
proof -
  obtain pre t s' c' where d: "line = pre @ t" "rmatch qfdbRe (t, []) (s', c')"
      "\<forall>i. 0 < i \<longrightarrow> map_of m i = map_of c' i"
    using js_match_rmatch[OF assms] by blast
  obtain vlan suffix w1 w2 w3 port where s:
      "t = ''17.7.1.2.2.1.2.'' @ vlan @ ''.'' @ suffix @ w1 @ ''='' @ w2 @ ''INTEGER:'' @ w3 @ port @ s'"
      "vlan \<noteq> []" "set vlan \<subseteq> set digit" "suffix \<noteq> []" "set suffix \<subseteq> set (digit @ ''.'')"
      "port \<noteq> []" "set port \<subseteq> set digit"
      "map_of c' 1 = Some suffix" "map_of c' 2 = Some port"
    using qfdbRe_shape[OF d(2)] by blast
  have g: "grp m 1 = suffix" "grp m 2 = port" using d(3) s(8,9) by (simp_all add: grp_def)
  have "line = pre @ ''17.7.1.2.2.1.2.'' @ vlan @ ''.'' @ grp m 1 @ (w1 @ ''='' @ w2 @ ''INTEGER:'' @ w3 @ port @ s')"
    using d(1) s(1) g(1) by simp
  then show ?thesis using s(2-7) g by blast
qed

text \<open>
  C3 at the input where the code leaves it. The Q-Bridge walk reports one MAC in VLAN 10
  on port 0 and in VLAN 20 on port 7. The test \<^verbatim>\<open>!macToBp[mac]\<close> takes the stored
  port 0 for a missing entry, so the later line replaces the first one: the table ends
  with port 7, where the first line in text order has port 0.
\<close>

theorem qbridge_zero_port_replaced:
  "parseMacToBp []
     ''.1.3.6.1.2.1.17.7.1.2.2.1.2.10.170.187.204.221.238.1 = INTEGER: 0\<newline>.1.3.6.1.2.1.17.7.1.2.2.1.2.20.170.187.204.221.238.1 = INTEGER: 7\<newline>''
   = [(''aa:bb:cc:dd:ee:01'', Num 7)]"
  by code_simp


section \<open>The fallback policy\<close>

lemma lancom_not_bridge:
  "walkCommand host community version ''1.3.6.1.4.1.2356.13.1.3.4.1.1'' \<notin> set (bridgeCommands host community version) \<and>
   walkCommand host community version ''1.3.6.1.4.1.2356.13.1.3.32.1.3'' \<notin> set (bridgeCommands host community version)"
  by (simp add: bridgeCommands_def walkCommand_def)

lemma wlan_empty_result:
  assumes "entries (wlanClientTable cmp clientOut ssidOut arpOut) = []"
  shows "wlanClientTable cmp clientOut ssidOut arpOut
     = \<lparr>entries = [], count = 0, countWithIp = 0, hasMacTable = False, source = ''wlan-clients''\<rparr>"
  using assms by (simp add: wlanClientTable_def tableResult_def Let_def)

text \<open>
  C6. Let the five walks of the bridge strategy resolve to the given texts. If the join
  of the bridge tables is not empty, the resolver returns it with source
  \<^verbatim>\<open>bridge\<close> and has spawned the five bridge walks only: no walk of the LANCOM
  tables. If the join is empty, the resolver continues as the WLAN client builder,
  after the five walks. If that finds no client either, the result is the empty table
  with \<open>hasMacTable = False\<close> and source \<^verbatim>\<open>wlan-clients\<close>. The source of a result
  tells which strategy ended the resolution.
\<close>

theorem snmpMacTable_fallback:
  assumes "responses sys spawned (bridgeCommands host community version)
      = [Resolved fdbOut, Resolved qfdbOut, Resolved bpOut, Resolved ifNameOut, Resolved arpOut]"
  shows "(bridgeEntries cmp fdbOut qfdbOut bpOut ifNameOut arpOut \<noteq> [] \<longrightarrow>
            snmpMacTable sys cmp host community version spawned =
              (Resolved (tableResult ''bridge'' (bridgeEntries cmp fdbOut qfdbOut bpOut ifNameOut arpOut)),
               spawned @ bridgeCommands host community version)
            \<and> walkCommand host community version ''1.3.6.1.4.1.2356.13.1.3.4.1.1''
                 \<notin> set (bridgeCommands host community version)
            \<and> walkCommand host community version ''1.3.6.1.4.1.2356.13.1.3.32.1.3''
                 \<notin> set (bridgeCommands host community version)) \<and>
         (bridgeEntries cmp fdbOut qfdbOut bpOut ifNameOut arpOut = [] \<longrightarrow>
            snmpMacTable sys cmp host community version spawned =
              snmpLancomWlanClients sys cmp host community version
                (spawned @ bridgeCommands host community version)) \<and>
         (bridgeEntries cmp fdbOut qfdbOut bpOut ifNameOut arpOut = [] \<and>
          responses sys (spawned @ bridgeCommands host community version) (wlanCommands host community version)
            = [Resolved clientOut, Resolved ssidOut, Resolved arpOut2] \<and>
          entries (wlanClientTable cmp clientOut ssidOut arpOut2) = [] \<longrightarrow>
            snmpMacTable sys cmp host community version spawned =
              (Resolved \<lparr>entries = [], count = 0, countWithIp = 0, hasMacTable = False,
                          source = ''wlan-clients''\<rparr>,
               spawned @ bridgeCommands host community version @ wlanCommands host community version)) \<and>
         (snmpMacTable sys cmp host community version spawned = (Resolved r, spawned') \<longrightarrow>
            (source r = ''bridge'' \<longleftrightarrow> bridgeEntries cmp fdbOut qfdbOut bpOut ifNameOut arpOut \<noteq> []) \<and>
            (source r = ''wlan-clients'' \<longleftrightarrow> bridgeEntries cmp fdbOut qfdbOut bpOut ifNameOut arpOut = []))"
proof (intro conjI impI)
  assume ne: "bridgeEntries cmp fdbOut qfdbOut bpOut ifNameOut arpOut \<noteq> []"
  show "snmpMacTable sys cmp host community version spawned =
      (Resolved (tableResult ''bridge'' (bridgeEntries cmp fdbOut qfdbOut bpOut ifNameOut arpOut)),
       spawned @ bridgeCommands host community version)"
    using snmpMacTable_of_responses[OF assms, of cmp] ne by simp
next
  show "walkCommand host community version ''1.3.6.1.4.1.2356.13.1.3.4.1.1''
      \<notin> set (bridgeCommands host community version)"
    using lancom_not_bridge by blast
next
  show "walkCommand host community version ''1.3.6.1.4.1.2356.13.1.3.32.1.3''
      \<notin> set (bridgeCommands host community version)"
    using lancom_not_bridge by blast
next
  assume "bridgeEntries cmp fdbOut qfdbOut bpOut ifNameOut arpOut = []"
  then show "snmpMacTable sys cmp host community version spawned =
      snmpLancomWlanClients sys cmp host community version (spawned @ bridgeCommands host community version)"
    using snmpMacTable_of_responses[OF assms, of cmp] by simp
next
  assume a: "bridgeEntries cmp fdbOut qfdbOut bpOut ifNameOut arpOut = [] \<and>
          responses sys (spawned @ bridgeCommands host community version) (wlanCommands host community version)
            = [Resolved clientOut, Resolved ssidOut, Resolved arpOut2] \<and>
          entries (wlanClientTable cmp clientOut ssidOut arpOut2) = []"
  then show "snmpMacTable sys cmp host community version spawned =
      (Resolved \<lparr>entries = [], count = 0, countWithIp = 0, hasMacTable = False, source = ''wlan-clients''\<rparr>,
       spawned @ bridgeCommands host community version @ wlanCommands host community version)"
    using snmpMacTable_of_responses[OF assms, of cmp]
      snmpLancomWlanClients_of_responses[of sys "spawned @ bridgeCommands host community version"
        host community version clientOut ssidOut arpOut2 cmp]
      wlan_empty_result[of cmp clientOut ssidOut arpOut2]
    by simp
next
  assume r: "snmpMacTable sys cmp host community version spawned = (Resolved r, spawned')"
  show "source r = ''bridge'' \<longleftrightarrow> bridgeEntries cmp fdbOut qfdbOut bpOut ifNameOut arpOut \<noteq> []"
  proof (cases "bridgeEntries cmp fdbOut qfdbOut bpOut ifNameOut arpOut = []")
    case True
    then have "snmpLancomWlanClients sys cmp host community version (spawned @ bridgeCommands host community version)
        = (Resolved r, spawned')"
      using snmpMacTable_of_responses[OF assms, of cmp] r by simp
    then have "source r = ''wlan-clients''"
      using snmpLancomWlanClients_Resolved by (fastforce simp: wlanClientTable_def tableResult_def Let_def)
    then show ?thesis using True by simp
  next
    case False
    then show ?thesis
      using snmpMacTable_of_responses[OF assms, of cmp] r by (auto simp: tableResult_def)
  qed
next
  assume r: "snmpMacTable sys cmp host community version spawned = (Resolved r, spawned')"
  show "source r = ''wlan-clients'' \<longleftrightarrow> bridgeEntries cmp fdbOut qfdbOut bpOut ifNameOut arpOut = []"
  proof (cases "bridgeEntries cmp fdbOut qfdbOut bpOut ifNameOut arpOut = []")
    case True
    then have "snmpLancomWlanClients sys cmp host community version (spawned @ bridgeCommands host community version)
        = (Resolved r, spawned')"
      using snmpMacTable_of_responses[OF assms, of cmp] r by simp
    then have "source r = ''wlan-clients''"
      using snmpLancomWlanClients_Resolved by (fastforce simp: wlanClientTable_def tableResult_def Let_def)
    then show ?thesis using True by simp
  next
    case False
    then show ?thesis
      using snmpMacTable_of_responses[OF assms, of cmp] r by (auto simp: tableResult_def)
  qed
qed


lemma switch_responses:
  "responses (agent switchDevice) [] (bridgeCommands ''10.0.0.1'' ''public'' ''2c'')
     = [Resolved (walkText switchDevice ''1.3.6.1.2.1.17.4.3.1.2''), Resolved [],
        Resolved (walkText switchDevice ''1.3.6.1.2.1.17.1.4.1.2''),
        Resolved (walkText switchDevice ''1.3.6.1.2.1.31.1.1.1.1''),
        Resolved (walkText switchDevice ''1.3.6.1.2.1.4.22.1.2'')]"
  by (simp add: bridgeCommands_def walkCommand_def agent_def walkText_def switchDevice_def
      settle_def executor_def walkStart_def resolve_def)

lemma switch_entries:
  "bridgeEntries numericCollator (walkText switchDevice ''1.3.6.1.2.1.17.4.3.1.2'') []
        (walkText switchDevice ''1.3.6.1.2.1.17.1.4.1.2'')
        (walkText switchDevice ''1.3.6.1.2.1.31.1.1.1.1'')
        (walkText switchDevice ''1.3.6.1.2.1.4.22.1.2'')
   = [\<lparr>mac = ''aa:bb:cc:dd:ee:01'', bridgePort = Num 1, portName = ''eth0'', ip = Some ''10.0.0.5''\<rparr>,
      \<lparr>mac = ''aa:bb:cc:dd:ee:02'', bridgePort = Num 2, portName = ''Port 2'', ip = None\<rparr>,
      \<lparr>mac = ''aa:bb:cc:dd:ee:03'', bridgePort = Num 10, portName = ''Port 10'', ip = None\<rparr>]"
  by code_simp

lemma silent_bridge_responses:
  "responses (agent silentDevice) [] (bridgeCommands ''10.0.0.1'' ''public'' ''2c'')
     = [Resolved [], Resolved [], Resolved [], Resolved [], Resolved []]"
  by (simp add: bridgeCommands_def agent_def silentDevice_def settle_def executor_def walkStart_def resolve_def)

lemma silent_wlan_responses:
  "responses (agent silentDevice) ([] @ bridgeCommands ''10.0.0.1'' ''public'' ''2c'')
       (wlanCommands ''10.0.0.1'' ''public'' ''2c'')
     = [Resolved [], Resolved [], Resolved []]"
  by (simp add: wlanCommands_def agent_def silentDevice_def settle_def executor_def walkStart_def resolve_def)

lemma silent_entries:
  "bridgeEntries numericCollator [] [] [] [] [] = []"
  "entries (wlanClientTable numericCollator [] [] []) = []"
  by code_simp+

theorem snmpMacTable_fallback_witness:
  "snmpMacTable (agent switchDevice) numericCollator ''10.0.0.1'' ''public'' ''2c'' [] =
     (Resolved (tableResult ''bridge''
        [\<lparr>mac = ''aa:bb:cc:dd:ee:01'', bridgePort = Num 1, portName = ''eth0'', ip = Some ''10.0.0.5''\<rparr>,
         \<lparr>mac = ''aa:bb:cc:dd:ee:02'', bridgePort = Num 2, portName = ''Port 2'', ip = None\<rparr>,
         \<lparr>mac = ''aa:bb:cc:dd:ee:03'', bridgePort = Num 10, portName = ''Port 10'', ip = None\<rparr>]),
      bridgeCommands ''10.0.0.1'' ''public'' ''2c'') \<and>
   snmpMacTable (agent silentDevice) numericCollator ''10.0.0.1'' ''public'' ''2c'' [] =
     (Resolved \<lparr>entries = [], count = 0, countWithIp = 0, hasMacTable = False, source = ''wlan-clients''\<rparr>,
      bridgeCommands ''10.0.0.1'' ''public'' ''2c'' @ wlanCommands ''10.0.0.1'' ''public'' ''2c'')"
proof
  show "snmpMacTable (agent switchDevice) numericCollator ''10.0.0.1'' ''public'' ''2c'' [] =
     (Resolved (tableResult ''bridge''
        [\<lparr>mac = ''aa:bb:cc:dd:ee:01'', bridgePort = Num 1, portName = ''eth0'', ip = Some ''10.0.0.5''\<rparr>,
         \<lparr>mac = ''aa:bb:cc:dd:ee:02'', bridgePort = Num 2, portName = ''Port 2'', ip = None\<rparr>,
         \<lparr>mac = ''aa:bb:cc:dd:ee:03'', bridgePort = Num 10, portName = ''Port 10'', ip = None\<rparr>]),
      bridgeCommands ''10.0.0.1'' ''public'' ''2c'')"
    using conjunct1[OF snmpMacTable_fallback[OF switch_responses, of numericCollator]] switch_entries
    by simp
next
  have "snmpMacTable (agent silentDevice) numericCollator ''10.0.0.1'' ''public'' ''2c'' [] =
     (Resolved \<lparr>entries = [], count = 0, countWithIp = 0, hasMacTable = False, source = ''wlan-clients''\<rparr>,
      [] @ bridgeCommands ''10.0.0.1'' ''public'' ''2c'' @ wlanCommands ''10.0.0.1'' ''public'' ''2c'')"
    using conjunct1[OF conjunct2[OF conjunct2[OF
            snmpMacTable_fallback[OF silent_bridge_responses, of numericCollator "[]" "[]" "[]"]]]]
      silent_entries silent_wlan_responses
    by blast
  then show "snmpMacTable (agent silentDevice) numericCollator ''10.0.0.1'' ''public'' ''2c'' [] =
     (Resolved \<lparr>entries = [], count = 0, countWithIp = 0, hasMacTable = False, source = ''wlan-clients''\<rparr>,
      bridgeCommands ''10.0.0.1'' ''public'' ''2c'' @ wlanCommands ''10.0.0.1'' ''public'' ''2c'')"
    by simp
qed


section \<open>The entries of the WLAN fallback\<close>

lemma js_join_nonempty: "2 \<le> length xs \<Longrightarrow> sep \<noteq> [] \<Longrightarrow> js_join sep xs \<noteq> []"
proof (cases xs)
  case Nil
  assume "2 \<le> length xs" then show ?thesis using Nil by simp
next
  case (Cons p ps)
  assume l: "2 \<le> length xs" and s: "sep \<noteq> []"
  then obtain q qs where "ps = q # qs" using Cons by (cases ps) auto
  then show ?thesis using Cons s by simp
qed

lemma macFromDecOid_nonempty: "macFromDecOid s = Some a \<Longrightarrow> a \<noteq> []"
proof -
  assume a: "macFromDecOid s = Some a"
  then have l: "length (js_split CHR ''.'' s) = 6"
    by (simp add: macFromDecOid_def Let_def split: if_splits)
  have "a = js_join '':'' (map (\<lambda>n. padStart 2 CHR ''0'' (numToString (parseInt n 10) 16)) (js_split CHR ''.'' s))"
    using a l by (simp add: macFromDecOid_def Let_def)
  then show ?thesis using js_join_nonempty[of "map (\<lambda>n. padStart 2 CHR ''0'' (numToString (parseInt n 10) 16)) (js_split CHR ''.'' s)" "'':''"] l
    by simp
qed

lemma macFromDecOid_truthy: "macFromDecOid s = Some a \<Longrightarrow> truthyStr a"
  by (simp add: truthyStr_def macFromDecOid_nonempty)

lemma set_map_entry_subset:
  "(k', v') \<in> set (AList.map_entry k f al) \<Longrightarrow> \<exists>v. (k', v) \<in> set al \<and> (v' = v \<or> (k' = k \<and> v' = f v))"
proof (induction al)
  case Nil
  then show ?case by simp
next
  case (Cons p al)
  show ?case
  proof (cases "fst p = k")
    case True
    then have "(k', v') = (k, f (snd p)) \<or> (k', v') \<in> set al" using Cons.prems by simp
    then show ?thesis using True by (cases p) auto
  next
    case False
    then have "(k', v') = p \<or> (k', v') \<in> set (AList.map_entry k f al)" using Cons.prems by simp
    then show ?thesis using Cons.IH by auto
  qed
qed

lemma set_update_subset:
  "(k', v') \<in> set (AList.update k v al) \<Longrightarrow> (k', v') \<in> set al \<or> (k' = k \<and> v' = v)"
  by (induction al) (auto split: if_splits)

lemma keyed_map_entry:
  assumes "keyed cl" "\<And>c. mac (f c) = mac c"
  shows "keyed (AList.map_entry k f cl)"
  unfolding keyed_def
proof
  show "distinct (map fst (AList.map_entry k f cl))"
    using assms(1) by (simp add: keyed_def distinct_map_entry)
  show "\<forall>(k', c) \<in> set (AList.map_entry k f cl). mac c = k'"
  proof (clarify)
    fix k' c
    assume "(k', c) \<in> set (AList.map_entry k f cl)"
    then obtain v where v: "(k', v) \<in> set cl" "c = v \<or> (k' = k \<and> c = f v)"
      using set_map_entry_subset by meson
    have "mac v = k'" using v(1) assms(1) unfolding keyed_def by blast
    then show "mac c = k'" using v(2) assms(2) by auto
  qed
qed

lemma keyed_update:
  assumes "keyed cl" "mac v = k"
  shows "keyed (AList.update k v cl)"
  unfolding keyed_def
proof
  show "distinct (map fst (AList.update k v cl))"
    using assms(1) by (simp add: keyed_def distinct_update)
  show "\<forall>(k', c) \<in> set (AList.update k v cl). mac c = k'"
  proof (clarify)
    fix k' c
    assume "(k', c) \<in> set (AList.update k v cl)"
    then have "(k', c) \<in> set cl \<or> (k' = k \<and> c = v)"
      by (rule set_update_subset)
    then show "mac c = k'" using assms unfolding keyed_def by blast
  qed
qed

lemma clientLine_cases:
  "clientLineMac line = None \<Longrightarrow> clientLine cl line = cl"
  by (auto simp: clientLine_def clientLineMac_def Let_def split: option.splits)

lemma clientLine_some:
  assumes "clientLineMac line = Some a"
  shows "\<exists>f g. (\<forall>c. mac (f c) = mac c) \<and> (\<forall>c. mac (g c) = mac c) \<and>
           clientLine cl line =
             AList.map_entry a g (AList.map_entry a f
               (case map_of cl a of None \<Rightarrow> AList.update a \<lparr>mac = a, channel = None, band = None\<rparr> cl
                | Some c \<Rightarrow> cl))"
proof -
  obtain m where m: "js_match clientRe line = Some m" "macFromDecOid (grp m 2) = Some a"
    using assms by (auto simp: clientLineMac_def split: option.splits)
  have id: "AList.map_entry a (\<lambda>c. c) xs = xs" for xs :: "wlan_client obj"
    by (induction xs) auto
  let ?cl1 = "(case map_of cl a of None \<Rightarrow> AList.update a \<lparr>mac = a, channel = None, band = None\<rparr> cl
                | Some c \<Rightarrow> cl)"
  let ?n = "js_match numRe (js_trim (grp m 3))"
  let ?col = "parseInt (grp m 1) 0"
  let ?f = "(case ?n of None \<Rightarrow> (\<lambda>c. c)
      | Some k \<Rightarrow> if ?col = Num 2 then (\<lambda>c. c\<lparr>channel := Some (parseInt (grp k 1) 0)\<rparr>) else (\<lambda>c. c))"
  let ?g = "(case ?n of None \<Rightarrow> (\<lambda>c. c)
      | Some k \<Rightarrow> if ?col = Num 3 then (\<lambda>c. c\<lparr>band := Some (parseInt (grp k 1) 0)\<rparr>) else (\<lambda>c. c))"
  have "clientLine cl line = AList.map_entry a ?g (AList.map_entry a ?f ?cl1)"
    using m macFromDecOid_truthy[OF m(2)]
    by (auto simp: clientLine_def Let_def id split: option.splits)
  moreover have "\<forall>c. mac (?f c) = mac c" by (auto split: option.splits)
  moreover have "\<forall>c. mac (?g c) = mac c" by (auto split: option.splits)
  ultimately show ?thesis by blast
qed

lemma clientLine_keys:
  "fst ` set (clientLine cl line) =
     fst ` set cl \<union> (case clientLineMac line of None \<Rightarrow> {} | Some a \<Rightarrow> {a})"
proof (cases "clientLineMac line")
  case None
  then show ?thesis by (simp add: clientLine_cases)
next
  case (Some a)
  obtain f g where fg: "clientLine cl line =
             AList.map_entry a g (AList.map_entry a f
               (case map_of cl a of None \<Rightarrow> AList.update a \<lparr>mac = a, channel = None, band = None\<rparr> cl
                | Some c \<Rightarrow> cl))"
    using clientLine_some[OF Some] by blast
  have "a \<in> fst ` set cl" if "map_of cl a = Some c" for c
    using that by (meson domI dom_map_of_conv_image_fst[THEN equalityD1] subsetD)
  then show ?thesis
    unfolding fg using Some
    by (auto simp: dom_map_entry dom_update split: option.splits)
qed

lemma clientLine_keyed: "keyed cl \<Longrightarrow> keyed (clientLine cl line)"
proof (cases "clientLineMac line")
  case None
  then show "keyed cl \<Longrightarrow> keyed (clientLine cl line)" by (simp add: clientLine_cases)
next
  case (Some a)
  assume k: "keyed cl"
  obtain f g where fg: "\<forall>c. mac (f c) = mac c" "\<forall>c. mac (g c) = mac c" "clientLine cl line =
             AList.map_entry a g (AList.map_entry a f
               (case map_of cl a of None \<Rightarrow> AList.update a \<lparr>mac = a, channel = None, band = None\<rparr> cl
                | Some c \<Rightarrow> cl))"
    using clientLine_some[OF Some] by blast
  have "keyed (case map_of cl a of None \<Rightarrow> AList.update a \<lparr>mac = a, channel = None, band = None\<rparr> cl
                | Some c \<Rightarrow> cl)"
    using k by (auto simp: keyed_update split: option.splits)
  then show "keyed (clientLine cl line)"
    unfolding fg(3) using fg(1,2) by (simp add: keyed_map_entry)
qed

lemma foldl_clientLine_keys:
  "fst ` set (foldl clientLine cl ls) =
     fst ` set cl \<union> {a. \<exists>line \<in> set ls. clientLineMac line = Some a}"
proof (induction ls arbitrary: cl)
  case Nil
  then show ?case by simp
next
  case (Cons l ls)
  show ?case
    unfolding foldl_Cons Cons.IH clientLine_keys
    by (auto split: option.splits)
qed

lemma foldl_clientLine_keyed: "keyed cl \<Longrightarrow> keyed (foldl clientLine cl ls)"
  by (induction ls arbitrary: cl) (auto simp: clientLine_keyed)

lemma parseClients_keys:
  "fst ` set (parseClients clientOut) = {a. \<exists>line \<in> set (js_lines clientOut). clientLineMac line = Some a}"
  by (simp add: parseClients_def foldl_clientLine_keys)

lemma parseClients_keyed: "keyed (parseClients clientOut)"
proof -
  have "keyed ([] :: wlan_client obj)" by (simp add: keyed_def)
  then show ?thesis unfolding parseClients_def by (rule foldl_clientLine_keyed)
qed

lemma mac_wlanEntry: "mac (wlanEntry macToSsid macToIp c) = mac c"
  by (simp add: wlanEntry_def Let_def)

lemma keyed_macs: "keyed cl \<Longrightarrow> map mac (map snd cl) = map fst cl"
  by (induction cl) (auto simp: keyed_def)

lemma wlan_entry_macs:
  "map mac (map (wlanEntry macToSsid macToIp) (map snd (parseClients clientOut)))
     = map fst (parseClients clientOut)"
  using keyed_macs[OF parseClients_keyed, of clientOut]
  by (simp add: mac_wlanEntry comp_def)

text \<open>
  A line of the client table walk decodes to a MAC when it holds the root of the table,
  a column number, a dot and a dotted suffix, and the suffix decodes to the MAC.
\<close>

lemma clientRe_shape:
  assumes "rmatch clientRe (t, c) (s', c')"
  shows "\<exists>col suffix w1 w2 val.
        t = ''2356.13.1.3.4.1.1.'' @ col @ ''.'' @ suffix @ w1 @ ''='' @ w2 @ val @ s' \<and>
        col \<noteq> [] \<and> set col \<subseteq> set digit \<and>
        suffix \<noteq> [] \<and> set suffix \<subseteq> set (digit @ ''.'') \<and>
        set w1 \<subseteq> set whitespace \<and> set w2 \<subseteq> set whitespace \<and>
        set val \<inter> set lineTerminators = {} \<and>
        map_of c' 1 = Some col \<and> map_of c' 2 = Some suffix \<and> map_of c' 3 = Some val"
proof -
  from assms obtain st1 st2 st3 st4 st5 st6 st7
    where m1: "rmatch (Lit ''2356.13.1.3.4.1.1.'') (t, c) st1"
      and m2: "rmatch (Grp 1 (Plus (Cls digit))) st1 st2"
      and m3: "rmatch (Lit ''.'') st2 st3"
      and m4: "rmatch (Grp 2 (Plus (Cls (digit @ ''.'')))) st3 st4"
      and m5: "rmatch (Star (Cls whitespace)) st4 st5"
      and m6: "rmatch (Lit ''='') st5 st6"
      and m7: "rmatch (Star (Cls whitespace)) st6 st7"
      and m8: "rmatch (Grp 3 (Star Dot)) st7 (s', c')"
    unfolding clientRe_def seqs.simps by (elim rmatch_SeqE) blast
  have e1: "t = ''2356.13.1.3.4.1.1.'' @ fst st1" "snd st1 = c" using m1 by (simp_all add: rmatch_Lit_iff)
  obtain col where e2: "fst st1 = col @ fst st2" "col \<noteq> []" "set col \<subseteq> set digit"
      "snd st2 = AList.update 1 col (snd st1)"
    using rmatch_Grp_Plus_Cls[OF m2] by blast
  have e3: "fst st2 = ''.'' @ fst st3" "snd st3 = snd st2" using m3 by (simp_all add: rmatch_Lit_iff)
  obtain suffix where e4: "fst st3 = suffix @ fst st4" "suffix \<noteq> []" "set suffix \<subseteq> set (digit @ ''.'')"
      "snd st4 = AList.update 2 suffix (snd st3)"
    using rmatch_Grp_Plus_Cls[OF m4] by blast
  obtain w1 where e5: "fst st4 = w1 @ fst st5" "set w1 \<subseteq> set whitespace" "snd st5 = snd st4"
    using rmatch_Star_Cls[OF m5] by blast
  have e6: "fst st5 = ''='' @ fst st6" "snd st6 = snd st5" using m6 by (simp_all add: rmatch_Lit_iff)
  obtain w2 where e7: "fst st6 = w2 @ fst st7" "set w2 \<subseteq> set whitespace" "snd st7 = snd st6"
    using rmatch_Star_Cls[OF m7] by blast
  obtain val where e8: "fst st7 = val @ s'" "set val \<inter> set lineTerminators = {}"
      "c' = AList.update 3 val (snd st7)"
    using rmatch_Grp_Star_Dot[OF m8] by auto
  have caps: "c' = AList.update 3 val (AList.update 2 suffix (AList.update 1 col c))"
    using e8(3) e7(3) e6(2) e5(3) e4(4) e3(2) e2(4) e1(2) by simp
  have "t = ''2356.13.1.3.4.1.1.'' @ col @ ''.'' @ suffix @ w1 @ ''='' @ w2 @ val @ s'"
    using e1(1) e2(1) e3(1) e4(1) e5(1) e6(1) e7(1) e8(1) by simp
  moreover have "map_of c' 1 = Some col \<and> map_of c' 2 = Some suffix \<and> map_of c' 3 = Some val"
    unfolding caps by (simp add: update_conv')
  ultimately show ?thesis using e2(2,3) e4(2,3) e5(2) e7(2) e8(2) by blast
qed

lemma clientLineMac_shape:
  assumes "clientLineMac line = Some a"
  shows "\<exists>pre col suffix rest.
        line = pre @ ''2356.13.1.3.4.1.1.'' @ col @ ''.'' @ suffix @ rest \<and>
        col \<noteq> [] \<and> set col \<subseteq> set digit \<and>
        suffix \<noteq> [] \<and> set suffix \<subseteq> set (digit @ ''.'') \<and>
        macFromDecOid suffix = Some a"
proof -
  obtain m where m: "js_match clientRe line = Some m" "macFromDecOid (grp m 2) = Some a"
    using assms by (auto simp: clientLineMac_def split: option.splits)
  obtain pre t s' c' where d: "line = pre @ t" "rmatch clientRe (t, []) (s', c')"
      "\<forall>i. 0 < i \<longrightarrow> map_of m i = map_of c' i"
    using js_match_rmatch[OF m(1)] by blast
  obtain col suffix w1 w2 val where s:
      "t = ''2356.13.1.3.4.1.1.'' @ col @ ''.'' @ suffix @ w1 @ ''='' @ w2 @ val @ s'"
      "col \<noteq> []" "set col \<subseteq> set digit" "suffix \<noteq> []" "set suffix \<subseteq> set (digit @ ''.'')"
      "map_of c' 2 = Some suffix"
    using clientRe_shape[OF d(2)] by blast
  have "grp m 2 = suffix" using d(3) s(6) by (simp add: grp_def)
  then have "macFromDecOid suffix = Some a" using m(2) by simp
  moreover have "line = pre @ ''2356.13.1.3.4.1.1.'' @ col @ ''.'' @ suffix @ (w1 @ ''='' @ w2 @ val @ s')"
    using d(1) s(1) by simp
  ultimately show ?thesis using s(2-5) by blast
qed

text \<open>
  C9. The result of the WLAN fallback has an entry for a MAC exactly when a line of the
  client table walk matches the pattern of the client table and decodes to this MAC,
  and it has one entry for each such MAC. The texts of the SSID walk and of the ARP
  walk do not occur in the condition: they add no entry.
\<close>

theorem wlan_entries_from_client_table:
  "(a \<in> set (map mac (entries (wlanClientTable cmp clientOut ssidOut arpOut)))
      \<longleftrightarrow> (\<exists>line \<in> set (js_lines clientOut). clientLineMac line = Some a)) \<and>
   distinct (map mac (entries (wlanClientTable cmp clientOut ssidOut arpOut)))"
proof -
  let ?es = "map (wlanEntry (parseSsid ssidOut) (parseArp arpOut)) (map snd (parseClients clientOut))"
  have e: "entries (wlanClientTable cmp clientOut ssidOut arpOut) = sortByPortName cmp ?es"
    by (simp add: wlanClientTable_def Let_def tableResult_def)
  have m: "map mac ?es = map fst (parseClients clientOut)"
    by (rule wlan_entry_macs)
  have "set (map mac (sortByPortName cmp ?es)) = set (map mac ?es)"
    by (simp only: set_map set_sortByPortName)
  then have s: "set (map mac (sortByPortName cmp ?es)) = fst ` set (parseClients clientOut)"
    by (simp only: m set_map)
  have "distinct (map mac ?es)"
    using parseClients_keyed[of clientOut] by (simp only: m keyed_def)
  then have d: "distinct (map mac (sortByPortName cmp ?es))"
    by (simp only: sortByPortName_def distinct_map_js_sort)
  show ?thesis unfolding e s parseClients_keys using d by simp
qed


theorem wlan_entries_from_client_table_witness:
  "''aa:bb:cc:dd:ee:01'' \<in> set (map mac (entries (wlanClientTable numericCollator
        (walkText accessPoint ''1.3.6.1.4.1.2356.13.1.3.4.1.1'')
        (walkText accessPoint ''1.3.6.1.4.1.2356.13.1.3.32.1.3'')
        (walkText accessPoint ''1.3.6.1.2.1.4.22.1.2'')))) \<and>
   ''aa:bb:cc:dd:ee:09'' \<notin> set (map mac (entries (wlanClientTable numericCollator
        (walkText accessPoint ''1.3.6.1.4.1.2356.13.1.3.4.1.1'')
        (walkText accessPoint ''1.3.6.1.4.1.2356.13.1.3.32.1.3'')
        (walkText accessPoint ''1.3.6.1.2.1.4.22.1.2'')))) \<and>
   ''aa:bb:cc:dd:ee:07'' \<notin> set (map mac (entries (wlanClientTable numericCollator
        (walkText accessPoint ''1.3.6.1.4.1.2356.13.1.3.4.1.1'')
        (walkText accessPoint ''1.3.6.1.4.1.2356.13.1.3.32.1.3'')
        (walkText accessPoint ''1.3.6.1.2.1.4.22.1.2''))))"
proof -
  have l: "map clientLineMac (js_lines (walkText accessPoint ''1.3.6.1.4.1.2356.13.1.3.4.1.1''))
      = [Some ''aa:bb:cc:dd:ee:01'', Some ''aa:bb:cc:dd:ee:01'', None]"
    by code_simp
  have "(\<exists>line \<in> set (js_lines (walkText accessPoint ''1.3.6.1.4.1.2356.13.1.3.4.1.1'')).
           clientLineMac line = Some a) \<longleftrightarrow> Some a \<in> set [Some ''aa:bb:cc:dd:ee:01'', Some ''aa:bb:cc:dd:ee:01'', None]"
    for a
    unfolding l[symmetric] set_map image_iff by (metis (no_types))
  then show ?thesis
    using wlan_entries_from_client_table[of "''aa:bb:cc:dd:ee:01''" numericCollator
        "walkText accessPoint ''1.3.6.1.4.1.2356.13.1.3.4.1.1''"
        "walkText accessPoint ''1.3.6.1.4.1.2356.13.1.3.32.1.3''"
        "walkText accessPoint ''1.3.6.1.2.1.4.22.1.2''"]
      wlan_entries_from_client_table[of "''aa:bb:cc:dd:ee:09''" numericCollator
        "walkText accessPoint ''1.3.6.1.4.1.2356.13.1.3.4.1.1''"
        "walkText accessPoint ''1.3.6.1.4.1.2356.13.1.3.32.1.3''"
        "walkText accessPoint ''1.3.6.1.2.1.4.22.1.2''"]
      wlan_entries_from_client_table[of "''aa:bb:cc:dd:ee:07''" numericCollator
        "walkText accessPoint ''1.3.6.1.4.1.2356.13.1.3.4.1.1''"
        "walkText accessPoint ''1.3.6.1.4.1.2356.13.1.3.32.1.3''"
        "walkText accessPoint ''1.3.6.1.2.1.4.22.1.2''"]
    by simp
qed

lemma js_split_length_nonempty: "length (js_split sep s) \<noteq> 1 \<Longrightarrow> s \<noteq> []"
  by (cases s) simp_all

lemma arpLine_eq:
  "arpLine macToIp line = macToIp \<or>
   (\<exists>a v. v \<noteq> [] \<and> arpLine macToIp line = AList.update a v macToIp)"
proof (cases "js_match arpRe line")
  case None
  then show ?thesis by (simp add: arpLine_def)
next
  case m: (Some m)
  show ?thesis
  proof (cases "length (js_split CHR ''.'' (grp m 1)) = 4")
    case False
    then show ?thesis using m by (simp add: arpLine_def)
  next
    case True
    have ne: "grp m 1 \<noteq> []"
      using True js_split_length_nonempty[of "CHR ''.''" "grp m 1"] by simp
    show ?thesis
    proof (cases "macFromHexStr (js_trim (grp m 2))")
      case None
      then show ?thesis using m True by (simp add: arpLine_def)
    next
      case a: (Some a)
      show ?thesis
      proof (cases "truthyStr a")
        case False
        then show ?thesis using m a True by (simp add: arpLine_def)
      next
        case t: True
        have "arpLine macToIp line = AList.update a (grp m 1) macToIp"
          using m a True t by (simp add: arpLine_def)
        then show ?thesis using ne by blast
      qed
    qed
  qed
qed

lemma arpLine_values:
  assumes "\<forall>(k, v) \<in> set macToIp. v \<noteq> []"
  shows "\<forall>(k, v) \<in> set (arpLine macToIp line). v \<noteq> []"
proof -
  consider "arpLine macToIp line = macToIp"
    | a v where "v \<noteq> []" "arpLine macToIp line = AList.update a v macToIp"
    using arpLine_eq by blast
  then show ?thesis
  proof cases
    case 1
    then show ?thesis using assms by simp
  next
    case 2
    have "w \<noteq> []" if "(k, w) \<in> set (AList.update a v macToIp)" for k w
    proof -
      have "(k, w) \<in> set macToIp \<or> (k = a \<and> w = v)"
        using that by (rule set_update_subset)
      then show ?thesis using assms 2(1) by blast
    qed
    then show ?thesis unfolding 2(2) by blast
  qed
qed

lemma foldl_arpLine_values:
  "\<forall>(k, v) \<in> set macToIp. v \<noteq> [] \<Longrightarrow> \<forall>(k, v) \<in> set (foldl arpLine macToIp ls). v \<noteq> []"
proof (induction ls arbitrary: macToIp)
  case Nil
  then show ?case by simp
next
  case (Cons l ls)
  show ?case unfolding foldl_Cons
    by (rule Cons.IH) (rule arpLine_values[OF Cons.prems])
qed

lemma parseArp_nonempty: "map_of (parseArp arpOut) k = Some v \<Longrightarrow> v \<noteq> []"
proof -
  assume a: "map_of (parseArp arpOut) k = Some v"
  have "\<forall>(k, v) \<in> set (parseArp arpOut). v \<noteq> []"
    unfolding parseArp_def by (rule foldl_arpLine_values) simp
  moreover have "(k, v) \<in> set (parseArp arpOut)" using a by (rule map_of_SomeD)
  ultimately show ?thesis by blast
qed

lemma wlanEntry_eq:
  assumes "\<And>v. map_of macToIp (mac c) = Some v \<Longrightarrow> v \<noteq> []"
  shows "wlanEntry macToSsid macToIp c =
     \<lparr>mac = mac c, bridgePort = Num 0,
      portName = wlanPortName (map_of macToSsid (mac c)) (band c) (channel c),
      ip = map_of macToIp (mac c)\<rparr>"
proof -
  have i: "(case map_of macToIp (mac c) of None \<Rightarrow> None | Some a \<Rightarrow> if truthyStr a then Some a else None)
      = map_of macToIp (mac c)"
    using assms by (cases "map_of macToIp (mac c)") (auto simp: truthyStr_def)
  have n: "(let ssid = (case map_of macToSsid (mac c) of None \<Rightarrow> [] | Some s \<Rightarrow> if truthyStr s then s else []);
          name0 = (if truthyStr ssid then ''WLAN: '' @ ssid else ''WLAN'');
          name1 = (case band c of
                     None \<Rightarrow> name0
                   | Some b \<Rightarrow>
                       if truthyNum b
                       then name0 @ (if b = Num 1 then '' (2.4G)'' else if b = Num 2 then '' (5G)'' else [])
                       else name0)
      in (case channel c of
                     None \<Rightarrow> name1
                   | Some ch \<Rightarrow> if truthyNum ch then name1 @ '' CH'' @ numToString ch 10 else name1))
     = wlanPortName (map_of macToSsid (mac c)) (band c) (channel c)"
    by (cases "map_of macToSsid (mac c)"; cases "band c"; cases "channel c")
       (auto simp: wlanPortName_def Let_def truthyStr_def truthyNum_def split: number.splits)
  show ?thesis
    unfolding wlanEntry_def using i n by (simp add: Let_def)
qed

text \<open>
  C7, as the code has it. The entries of the WLAN fallback are those of the clients of
  the client table: bridge port 0, the address of the ARP table if there is one, and
  the port name \<^verbatim>\<open>WLAN: \<close> with the SSID when a non-empty SSID is known for the MAC
  and \<^verbatim>\<open>WLAN\<close> otherwise, then \<^verbatim>\<open> (2.4G)\<close> for band 1 and \<^verbatim>\<open> (5G)\<close> for band 2,
  then \<^verbatim>\<open> CH\<close> with the channel when the channel is known and not 0. The source is
  \<^verbatim>\<open>wlan-clients\<close>.
\<close>

theorem wlan_entry_naming:
  "set (entries (wlanClientTable cmp clientOut ssidOut arpOut)) =
     (\<lambda>c. \<lparr>mac = mac c, bridgePort = Num 0,
            portName = wlanPortName (map_of (parseSsid ssidOut) (mac c)) (band c) (channel c),
            ip = map_of (parseArp arpOut) (mac c)\<rparr>) ` snd ` set (parseClients clientOut) \<and>
   source (wlanClientTable cmp clientOut ssidOut arpOut) = ''wlan-clients''"
proof -
  have "wlanEntry (parseSsid ssidOut) (parseArp arpOut) = (\<lambda>c. \<lparr>mac = mac c, bridgePort = Num 0,
            portName = wlanPortName (map_of (parseSsid ssidOut) (mac c)) (band c) (channel c),
            ip = map_of (parseArp arpOut) (mac c)\<rparr>)"
    by (rule ext) (rule wlanEntry_eq, erule parseArp_nonempty)
  then show ?thesis
    by (simp add: wlanClientTable_def Let_def tableResult_def set_sortByPortName image_image)
qed

lemma ap_clients:
  "parseClients (walkText accessPoint ''1.3.6.1.4.1.2356.13.1.3.4.1.1'')
     = [(''aa:bb:cc:dd:ee:01'', \<lparr>mac = ''aa:bb:cc:dd:ee:01'', channel = Some (Num 36), band = Some (Num 2)\<rparr>)]"
  by code_simp

lemma ap_ssid:
  "map_of (parseSsid (walkText accessPoint ''1.3.6.1.4.1.2356.13.1.3.32.1.3'')) ''aa:bb:cc:dd:ee:01'' = Some ''Guest''"
  by code_simp

lemma ap_arp:
  "map_of (parseArp (walkText accessPoint ''1.3.6.1.2.1.4.22.1.2'')) ''aa:bb:cc:dd:ee:01'' = Some ''10.0.0.5''"
  by code_simp

lemma ap_name: "wlanPortName (Some ''Guest'') (Some (Num 2)) (Some (Num 36)) = ''WLAN: Guest (5G) CH36''"
  by code_simp

theorem wlan_entry_naming_witness:
  "set (entries (wlanClientTable numericCollator
          (walkText accessPoint ''1.3.6.1.4.1.2356.13.1.3.4.1.1'')
          (walkText accessPoint ''1.3.6.1.4.1.2356.13.1.3.32.1.3'')
          (walkText accessPoint ''1.3.6.1.2.1.4.22.1.2'')))
     = {\<lparr>mac = ''aa:bb:cc:dd:ee:01'', bridgePort = Num 0, portName = ''WLAN: Guest (5G) CH36'',
         ip = Some ''10.0.0.5''\<rparr>}"
  using wlan_entry_naming[of numericCollator "walkText accessPoint ''1.3.6.1.4.1.2356.13.1.3.4.1.1''"
      "walkText accessPoint ''1.3.6.1.4.1.2356.13.1.3.32.1.3''"
      "walkText accessPoint ''1.3.6.1.2.1.4.22.1.2''"]
  by (simp add: ap_clients ap_ssid ap_arp ap_name)


text \<open>
  C7 as stated fails for channel 0 and for an SSID of blanks: the table knows the
  channel and an SSID is stored for the MAC, and the name is plain \<^verbatim>\<open>WLAN\<close>, since
  \<^verbatim>\<open>if (c.channel)\<close> takes 0 for no channel and \<^verbatim>\<open>macToSsid[c.mac] || ''\<close> takes
  the empty string for no SSID.
\<close>

theorem wlan_channel_zero_counterexample:
  \<open>parseClients ''.1.3.6.1.4.1.2356.13.1.3.4.1.1.2.170.187.204.221.238.1 = INTEGER: 0''
     = [(''aa:bb:cc:dd:ee:01'', \<lparr>mac = ''aa:bb:cc:dd:ee:01'', channel = Some (Num 0), band = None\<rparr>)] \<and>
   parseSsid ''.1.3.6.1.4.1.2356.13.1.3.32.1.3.170.187.204.221.238.1 = STRING: " "''
     = [(''aa:bb:cc:dd:ee:01'', [])] \<and>
   entries (wlanClientTable numericCollator
      ''.1.3.6.1.4.1.2356.13.1.3.4.1.1.2.170.187.204.221.238.1 = INTEGER: 0''
      ''.1.3.6.1.4.1.2356.13.1.3.32.1.3.170.187.204.221.238.1 = STRING: " "'' [])
     = [\<lparr>mac = ''aa:bb:cc:dd:ee:01'', bridgePort = Num 0, portName = ''WLAN'', ip = None\<rparr>]\<close>
  by code_simp

section \<open>The shape of the results\<close>

text \<open>
  C8. With a consistent collator, every result of \<^verbatim>\<open>snmpMacTable\<close> and of
  \<^verbatim>\<open>snmpLancomWlanClients\<close> has \<open>count\<close> equal to the number of entries,
  \<open>hasMacTable\<close> true exactly when there is an entry, \<open>countWithIp\<close> equal to the
  number of entries with an address, and its entries in the order of the collator on
  the port names.
\<close>

theorem result_shape:
  assumes "consistent cmp"
    and "snmpMacTable sys cmp host community version spawned = (Resolved r, spawned') \<or>
         snmpLancomWlanClients sys cmp host community version spawned = (Resolved r, spawned')"
  shows "count r = length (entries r) \<and>
         hasMacTable r = (entries r \<noteq> []) \<and>
         countWithIp r = length (filter (\<lambda>e. ip e \<noteq> None) (entries r)) \<and>
         sorted_wrt (\<lambda>a b. cmp (portName a) (portName b) \<le> 0) (entries r)"
proof -
  have w: "shaped cmp r"
    if "snmpLancomWlanClients sys cmp host community version sp = (Resolved r, spawned')" for sp
    using snmpLancomWlanClients_Resolved[OF that] wlanClientTable_shape[OF assms(1)] by auto
  have "shaped cmp r"
    using assms(2)
  proof
    assume m: "snmpMacTable sys cmp host community version spawned = (Resolved r, spawned')"
    then obtain fdbOut qfdbOut bpOut ifNameOut arpOut
      where rs: "responses sys spawned (bridgeCommands host community version)
        = [Resolved fdbOut, Resolved qfdbOut, Resolved bpOut, Resolved ifNameOut, Resolved arpOut]"
      using snmpMacTable_Resolved by blast
    show ?thesis
    proof (cases "bridgeEntries cmp fdbOut qfdbOut bpOut ifNameOut arpOut = []")
      case True
      then show ?thesis using snmpMacTable_of_responses[OF rs, of cmp] m w by simp
    next
      case False
      then have "r = tableResult ''bridge'' (bridgeEntries cmp fdbOut qfdbOut bpOut ifNameOut arpOut)"
        using snmpMacTable_of_responses[OF rs, of cmp] m by simp
      then show ?thesis using bridge_shape[OF assms(1)] by simp
    qed
  next
    assume "snmpLancomWlanClients sys cmp host community version spawned = (Resolved r, spawned')"
    then show ?thesis by (rule w)
  qed
  then show ?thesis by (simp add: shaped_def)
qed

lemma switch_run:
  "snmpMacTable (agent switchDevice) numericCollator ''10.0.0.1'' ''public'' ''2c'' [] =
     (Resolved
        \<lparr>entries =
           [\<lparr>mac = ''aa:bb:cc:dd:ee:01'', bridgePort = Num 1, portName = ''eth0'', ip = Some ''10.0.0.5''\<rparr>,
            \<lparr>mac = ''aa:bb:cc:dd:ee:02'', bridgePort = Num 2, portName = ''Port 2'', ip = None\<rparr>,
            \<lparr>mac = ''aa:bb:cc:dd:ee:03'', bridgePort = Num 10, portName = ''Port 10'', ip = None\<rparr>],
         count = 3, countWithIp = 1, hasMacTable = True, source = ''bridge''\<rparr>,
      bridgeCommands ''10.0.0.1'' ''public'' ''2c'')"
  using snmpMacTable_of_responses[OF switch_responses, of numericCollator] switch_entries
  by (simp add: tableResult_def truthyStr_def)

lemma collator_examples:
  "numericCollator ''eth0'' ''Port 2'' \<le> 0"
  "numericCollator ''Port 2'' ''Port 10'' \<le> 0"
  "\<not> numericCollator ''Port 10'' ''Port 2'' \<le> 0"
  by code_simp+

theorem result_shape_witness:
  "consistent numericCollator \<and>
   snmpMacTable (agent switchDevice) numericCollator ''10.0.0.1'' ''public'' ''2c'' [] =
     (Resolved
        \<lparr>entries =
           [\<lparr>mac = ''aa:bb:cc:dd:ee:01'', bridgePort = Num 1, portName = ''eth0'', ip = Some ''10.0.0.5''\<rparr>,
            \<lparr>mac = ''aa:bb:cc:dd:ee:02'', bridgePort = Num 2, portName = ''Port 2'', ip = None\<rparr>,
            \<lparr>mac = ''aa:bb:cc:dd:ee:03'', bridgePort = Num 10, portName = ''Port 10'', ip = None\<rparr>],
         count = 3, countWithIp = 1, hasMacTable = True, source = ''bridge''\<rparr>,
      bridgeCommands ''10.0.0.1'' ''public'' ''2c'') \<and>
   numericCollator ''eth0'' ''Port 2'' \<le> 0 \<and> numericCollator ''Port 2'' ''Port 10'' \<le> 0 \<and>
   \<not> numericCollator ''Port 10'' ''Port 2'' \<le> 0"
  using result_shape[OF consistent_numericCollator disjI1[OF switch_run]]
    consistent_numericCollator switch_run collator_examples(3)
  by simp


section \<open>Port names of the bridge strategy\<close>

lemma bridgeEntry_name:
  "portName (bridgeEntry bpToIf ifNames macToIp x) =
     (case resolvedIfName bpToIf ifNames (snd x) of
        Some nm \<Rightarrow> nm
      | None \<Rightarrow> ''Port '' @ numToString (snd x) 10) \<and>
   bridgePort (bridgeEntry bpToIf ifNames macToIp x) = snd x"
  by (simp add: bridgeEntry_def resolvedIfName_def Let_def truthyNum_def truthyStr_def
      split: option.splits number.splits)

text \<open>
  C10. The port name of an entry of the bridge strategy is the interface name when its
  bridge port maps to an ifIndex other than 0 that has a non-empty name; in every other
  case it is \<^verbatim>\<open>Port \<close> followed by the bridge port.
\<close>

theorem bridge_port_naming:
  assumes "e \<in> set (bridgeEntries cmp fdbOut qfdbOut bpOut ifNameOut arpOut)"
  shows "portName e =
     (case resolvedIfName (parseBpToIf bpOut) (parseIfNames ifNameOut) (bridgePort e) of
        Some nm \<Rightarrow> nm
      | None \<Rightarrow> ''Port '' @ numToString (bridgePort e) 10)"
proof -
  obtain x where x: "e = bridgeEntry (parseBpToIf bpOut) (parseIfNames ifNameOut) (parseArp arpOut) x"
    using assms by (auto simp: bridgeEntries_def Let_def set_sortByPortName)
  have bp: "bridgePort e = snd x"
    unfolding x using bridgeEntry_name by blast
  have "portName e =
     (case resolvedIfName (parseBpToIf bpOut) (parseIfNames ifNameOut) (snd x) of
        Some nm \<Rightarrow> nm
      | None \<Rightarrow> ''Port '' @ numToString (snd x) 10)"
    unfolding x using bridgeEntry_name by blast
  then show ?thesis by (simp only: bp)
qed


theorem bridge_port_naming_witness:
  "\<lparr>mac = ''aa:bb:cc:dd:ee:02'', bridgePort = Num 2, portName = ''Port 2'', ip = None\<rparr>
     \<in> set (bridgeEntries numericCollator (walkText switchDevice ''1.3.6.1.2.1.17.4.3.1.2'') []
        (walkText switchDevice ''1.3.6.1.2.1.17.1.4.1.2'')
        (walkText switchDevice ''1.3.6.1.2.1.31.1.1.1.1'')
        (walkText switchDevice ''1.3.6.1.2.1.4.22.1.2'')) \<and>
   resolvedIfName (parseBpToIf (walkText switchDevice ''1.3.6.1.2.1.17.1.4.1.2''))
       (parseIfNames (walkText switchDevice ''1.3.6.1.2.1.31.1.1.1.1'')) (Num 2) = None \<and>
   resolvedIfName (parseBpToIf (walkText switchDevice ''1.3.6.1.2.1.17.1.4.1.2''))
       (parseIfNames (walkText switchDevice ''1.3.6.1.2.1.31.1.1.1.1'')) (Num 1) = Some ''eth0''"
proof -
  have m: "\<lparr>mac = ''aa:bb:cc:dd:ee:02'', bridgePort = Num 2, portName = ''Port 2'', ip = None\<rparr>
     \<in> set (bridgeEntries numericCollator (walkText switchDevice ''1.3.6.1.2.1.17.4.3.1.2'') []
        (walkText switchDevice ''1.3.6.1.2.1.17.1.4.1.2'')
        (walkText switchDevice ''1.3.6.1.2.1.31.1.1.1.1'')
        (walkText switchDevice ''1.3.6.1.2.1.4.22.1.2''))"
    unfolding switch_entries by simp
  have r: "resolvedIfName (parseBpToIf (walkText switchDevice ''1.3.6.1.2.1.17.1.4.1.2''))
       (parseIfNames (walkText switchDevice ''1.3.6.1.2.1.31.1.1.1.1'')) (Num 1) = Some ''eth0''"
    by code_simp
  have "resolvedIfName (parseBpToIf (walkText switchDevice ''1.3.6.1.2.1.17.1.4.1.2''))
       (parseIfNames (walkText switchDevice ''1.3.6.1.2.1.31.1.1.1.1'')) (Num 2) \<noteq> Some nm" for nm
  proof
    assume "resolvedIfName (parseBpToIf (walkText switchDevice ''1.3.6.1.2.1.17.1.4.1.2''))
       (parseIfNames (walkText switchDevice ''1.3.6.1.2.1.31.1.1.1.1'')) (Num 2) = Some nm"
    then have "''Port 2'' = nm" using bridge_port_naming[OF m] by simp
    moreover have "resolvedIfName (parseBpToIf (walkText switchDevice ''1.3.6.1.2.1.17.1.4.1.2''))
       (parseIfNames (walkText switchDevice ''1.3.6.1.2.1.31.1.1.1.1'')) (Num 2) \<noteq> Some ''Port 2''"
      by code_simp
    ultimately show False
      using \<open>resolvedIfName (parseBpToIf (walkText switchDevice ''1.3.6.1.2.1.17.1.4.1.2''))
       (parseIfNames (walkText switchDevice ''1.3.6.1.2.1.31.1.1.1.1'')) (Num 2) = Some nm\<close> by simp
  qed
  then show ?thesis using m r by (cases "resolvedIfName (parseBpToIf (walkText switchDevice ''1.3.6.1.2.1.17.1.4.1.2''))
       (parseIfNames (walkText switchDevice ''1.3.6.1.2.1.31.1.1.1.1'')) (Num 2)") auto
qed

end
